theory Spec2Isabelle
  imports Complex_Main "HOL-Library.AList" "HOL-Library.Sublist"
begin

section \<open>Anytime Dynamic A* planner (\<open>ada_star.py\<close>): the embedding\<close>

subsection \<open>Costs\<close>

text \<open>
  The planner's numbers are Python floats that start at \<open>math.inf\<close>. They are modelled
  as exact reals extended with plus infinity: \<open>Fin r\<close> is a finite number, \<open>PInf\<close> is
  \<open>math.inf\<close>. Rounding, NaN and minus infinity are outside the model; edge weights may
  be infinite, the heuristic and epsilon are finite.
\<close>

datatype cost = Fin real | PInf

instantiation cost :: linorder
begin

fun less_eq_cost :: "cost \<Rightarrow> cost \<Rightarrow> bool" where
  "less_eq_cost (Fin a) (Fin b) = (a \<le> b)"
| "less_eq_cost (Fin a) PInf = True"
| "less_eq_cost PInf (Fin b) = False"
| "less_eq_cost PInf PInf = True"

fun less_cost :: "cost \<Rightarrow> cost \<Rightarrow> bool" where
  "less_cost (Fin a) (Fin b) = (a < b)"
| "less_cost (Fin a) PInf = True"
| "less_cost PInf (Fin b) = False"
| "less_cost PInf PInf = False"

instance
proof
  fix x y z :: cost
  show "(x < y) = (x \<le> y \<and> \<not> y \<le> x)"
    by (cases x; cases y) auto
  show "x \<le> x"
    by (cases x) auto
  show "x \<le> y \<Longrightarrow> y \<le> z \<Longrightarrow> x \<le> z"
    by (cases x; cases y; cases z) auto
  show "x \<le> y \<Longrightarrow> y \<le> x \<Longrightarrow> x = y"
    by (cases x; cases y) auto
  show "x \<le> y \<or> y \<le> x"
    by (cases x; cases y) auto
qed

end

instantiation cost :: plus
begin

fun plus_cost :: "cost \<Rightarrow> cost \<Rightarrow> cost" where
  "plus_cost (Fin a) (Fin b) = Fin (a + b)"
| "plus_cost (Fin a) PInf = PInf"
| "plus_cost PInf b = PInf"

instance ..

end

subsection \<open>Errors, dictionaries and the graph collaborator\<close>

datatype error = NodeNotFound string | KeyError | ValueError

text \<open>
  A Python \<open>dict\<close> keeps insertion order, and the planner iterates over \<open>OPEN\<close>,
  \<open>INCONS\<close> and the adjacency of a node, so dictionaries are association lists:
  \<open>d[k] = v\<close> is \<open>AList.update k v d\<close> (in place when \<open>k\<close> is present, appended
  otherwise), \<open>d.pop(k)\<close> is \<open>AList.delete k d\<close> after a membership test, \<open>k in d\<close>
  is \<open>dict_mem d k\<close>.
\<close>

definition dict_mem :: "('k \<times> 'v) list \<Rightarrow> 'k \<Rightarrow> bool" where
  "dict_mem d k = (k \<in> fst ` set d)"

text \<open>
  The graph is the networkx adjacency: each node with the ordered dictionary of its
  neighbours, each neighbour with the value of the designated weight attribute of the
  edge, \<open>None\<close> when that attribute is unset.
\<close>

type_synonym 'n graph = "('n \<times> ('n \<times> cost option) list) list"

definition nodes :: "'n graph \<Rightarrow> 'n list" where
  "nodes gr = map fst gr"

text \<open>\<open>get_neighbor\<close> (line 237): \<open>self.G[s].keys()\<close>.\<close>

definition get_neighbor :: "'n graph \<Rightarrow> 'n \<Rightarrow> error + 'n list" where
  "get_neighbor gr s =
     (case map_of gr s of None \<Rightarrow> Inl KeyError | Some adj \<Rightarrow> Inr (map fst adj))"

text \<open>\<open>cost\<close> (line 233): \<open>self.G[s][s_prime][self.weight]\<close>, three dictionary lookups.\<close>

definition cost :: "'n graph \<Rightarrow> 'n \<Rightarrow> 'n \<Rightarrow> error + cost" where
  "cost gr s s' =
     (case map_of gr s of
        None \<Rightarrow> Inl KeyError
      | Some adj \<Rightarrow>
          (case map_of adj s' of
             None \<Rightarrow> Inl KeyError
           | Some None \<Rightarrow> Inl KeyError
           | Some (Some w) \<Rightarrow> Inr w))"

text \<open>\<open>self.G[a][b][self.weight] = w\<close> (lines 268, 269).\<close>

definition set_weight :: "'n graph \<Rightarrow> 'n \<Rightarrow> 'n \<Rightarrow> cost \<Rightarrow> error + 'n graph" where
  "set_weight gr a b w =
     (case map_of gr a of
        None \<Rightarrow> Inl KeyError
      | Some adj \<Rightarrow>
          (case map_of adj b of
             None \<Rightarrow> Inl KeyError
           | Some _ \<Rightarrow> Inr (AList.update a (AList.update b (Some w) adj) gr)))"

subsection \<open>The planner object\<close>

type_synonym key = "cost \<times> cost"

text \<open>
  The tables \<open>g\<close> and \<open>rhs\<close> get an entry for every node at construction (lines 125
  and 128) and never lose one; the planner only looks up the start, the goal and
  states found as keys of the adjacency, which are nodes. The tables are total functions.
\<close>

record 'n planner =
  s_start :: 'n
  s_goal :: 'n
  heursistic :: "'n \<Rightarrow> 'n \<Rightarrow> real"
  G :: "'n graph"
  g :: "'n \<Rightarrow> cost"
  rhs :: "'n \<Rightarrow> cost"
  OPEN :: "('n \<times> key) list"
  epsilon :: real
  CLOSED :: "'n set"
  INCONS :: "('n \<times> int) list"
  visited :: "'n set"
  initialize :: bool

text \<open>
  A call either returns or raises; the object keeps what was written before the
  raise, so both outcomes carry the planner.
\<close>

datatype 'n outcome = Ok "'n planner" | Raise error "'n planner"

fun the_planner :: "'n outcome \<Rightarrow> 'n planner" where
  "the_planner (Ok P) = P"
| "the_planner (Raise e P) = P"

subsection \<open>Keys\<close>

text \<open>\<open>key\<close> (lines 199 to 203).\<close>

definition key :: "'n planner \<Rightarrow> 'n \<Rightarrow> key" where
  "key P s =
     (if g P s > rhs P s
      then (rhs P s + Fin (epsilon P * heursistic P (s_start P) s), rhs P s)
      else (g P s + Fin (heursistic P (s_start P) s), g P s))"

text \<open>\<open>key_lt\<close> (lines 206 to 212).\<close>

definition key_lt :: "key \<Rightarrow> key \<Rightarrow> bool" where
  "key_lt key1 key2 =
     (if fst key1 < fst key2 then True
      else if fst key1 = fst key2 \<and> snd key1 < snd key2 then True
      else False)"

text \<open>
  \<open>smallest_key\<close> (lines 215 to 230): one scan over \<open>OPEN.items()\<close> carrying
  \<open>min_primary\<close>, \<open>min_secondary\<close> and \<open>min_index\<close>.
\<close>

fun smallest_key_scan ::
  "('n \<times> key) list \<Rightarrow> cost \<Rightarrow> cost \<Rightarrow> 'n option \<Rightarrow> 'n option \<times> key" where
  "smallest_key_scan [] min_primary min_secondary min_index =
     (min_index, (min_primary, min_secondary))"
| "smallest_key_scan ((k, v) # items) min_primary min_secondary min_index =
     (if fst v \<le> min_primary
      then (if snd v < min_secondary
            then smallest_key_scan items (fst v) (snd v) (Some k)
            else smallest_key_scan items (fst v) min_secondary (Some k))
      else smallest_key_scan items min_primary min_secondary min_index)"

definition smallest_key :: "'n planner \<Rightarrow> 'n option \<times> key" where
  "smallest_key P = smallest_key_scan (OPEN P) PInf PInf None"

subsection \<open>\<open>update_state\<close> (lines 182 to 196)\<close>

text \<open>The loop of lines 186 and 187 over the neighbours of \<open>s\<close>.\<close>

fun rhs_scan :: "'n planner \<Rightarrow> 'n \<Rightarrow> 'n list \<Rightarrow> 'n outcome" where
  "rhs_scan P s [] = Ok P"
| "rhs_scan P s (x # xs) =
     (case cost (G P) s x of
        Inl e \<Rightarrow> Raise e P
      | Inr c \<Rightarrow> rhs_scan (P\<lparr>rhs := (rhs P)(s := min (rhs P s) (g P x + c))\<rparr>) s xs)"

text \<open>Lines 189 to 196: leave \<open>OPEN\<close>, then re-enter \<open>OPEN\<close> or \<open>INCONS\<close>.\<close>

definition requeue :: "'n planner \<Rightarrow> 'n \<Rightarrow> 'n planner" where
  "requeue P s =
     (let P1 = (if dict_mem (OPEN P) s then P\<lparr>OPEN := AList.delete s (OPEN P)\<rparr> else P)
      in if g P1 s \<noteq> rhs P1 s
         then (if s \<notin> CLOSED P1
               then P1\<lparr>OPEN := AList.update s (key P1 s) (OPEN P1)\<rparr>
               else P1\<lparr>INCONS := AList.update s 0 (INCONS P1)\<rparr>)
         else P1)"

definition update_state :: "'n planner \<Rightarrow> 'n \<Rightarrow> 'n outcome" where
  "update_state P s =
     (if s \<noteq> s_goal P
      then (let P0 = P\<lparr>rhs := (rhs P)(s := PInf)\<rparr>
            in case get_neighbor (G P0) s of
                 Inl e \<Rightarrow> Raise e P0
               | Inr nb \<Rightarrow>
                   (case rhs_scan P0 s nb of
                      Raise e P1 \<Rightarrow> Raise e P1
                    | Ok P1 \<Rightarrow> Ok (requeue P1 s)))
      else Ok (requeue P s))"

text \<open>\<open>for sn in self.get_neighbor(s): self.update_state(sn)\<close> (lines 173, 177).\<close>

fun update_states :: "'n planner \<Rightarrow> 'n list \<Rightarrow> 'n outcome" where
  "update_states P [] = Ok P"
| "update_states P (sn # sns) =
     (case update_state P sn of
        Raise e P' \<Rightarrow> Raise e P'
      | Ok P' \<Rightarrow> update_states P' sns)"

subsection \<open>The main loop of \<open>compute_or_improve_path\<close> (lines 161 to 179)\<close>

text \<open>The test of line 164 on the pair returned by \<open>smallest_key\<close>.\<close>

definition loop_done :: "'n planner \<Rightarrow> bool" where
  "loop_done P =
     (\<not> key_lt (snd (smallest_key P)) (key P (s_start P))
      \<and> rhs P (s_start P) = g P (s_start P))"

text \<open>Lines 167 to 179 for the state \<open>s\<close> returned by \<open>smallest_key\<close>.\<close>

definition expand :: "'n planner \<Rightarrow> 'n option \<Rightarrow> 'n outcome" where
  "expand P so =
     (case so of
        None \<Rightarrow> Raise KeyError P
      | Some s \<Rightarrow>
          if \<not> dict_mem (OPEN P) s then Raise KeyError P
          else
            (let P1 = P\<lparr>OPEN := AList.delete s (OPEN P), visited := insert s (visited P)\<rparr>
             in if g P1 s > rhs P1 s
                then (let P2 = P1\<lparr>g := (g P1)(s := rhs P1 s), CLOSED := insert s (CLOSED P1)\<rparr>
                      in case get_neighbor (G P2) s of
                           Inl e \<Rightarrow> Raise e P2
                         | Inr nb \<Rightarrow> update_states P2 nb)
                else (let P2 = P1\<lparr>g := (g P1)(s := PInf)\<rparr>
                      in case get_neighbor (G P2) s of
                           Inl e \<Rightarrow> Raise e P2
                         | Inr nb \<Rightarrow>
                             (case update_states P2 nb of
                                Raise e P3 \<Rightarrow> Raise e P3
                              | Ok P3 \<Rightarrow> update_state P3 s))))"

text \<open>
  \<open>while True\<close>: the loop is given fuel, one unit per test of line 164; \<open>None\<close>
  means that the fuel ran out before the loop ended.
\<close>

fun main_loop :: "nat \<Rightarrow> 'n planner \<Rightarrow> 'n outcome option" where
  "main_loop 0 P = None"
| "main_loop (Suc n) P =
     (if loop_done P then Some (Ok P)
      else (case expand P (fst (smallest_key P)) of
              Raise e P' \<Rightarrow> Some (Raise e P')
            | Ok P' \<Rightarrow> main_loop n P'))"

text \<open>
  Lines 152 to 159 and 272 to 279: move \<open>INCONS\<close> into \<open>OPEN\<close>, empty \<open>INCONS\<close>,
  recompute the key of every open state, empty \<open>CLOSED\<close>. Both loops are
  \<open>for state in d: self.OPEN[state] = self.key(state)\<close>, which is \<open>rekey\<close> over the
  keys of \<open>d\<close>.
\<close>

fun rekey :: "'n planner \<Rightarrow> 'n list \<Rightarrow> 'n planner" where
  "rekey P [] = P"
| "rekey P (state # states) =
     rekey (P\<lparr>OPEN := AList.update state (key P state) (OPEN P)\<rparr>) states"

definition reprime :: "'n planner \<Rightarrow> 'n planner" where
  "reprime P =
     (let P1 = rekey P (map fst (INCONS P));
          P2 = P1\<lparr>INCONS := []\<rparr>;
          P3 = rekey P2 (map fst (OPEN P2))
      in P3\<lparr>CLOSED := {}\<rparr>)"

text \<open>\<open>compute_or_improve_path\<close> (lines 140 to 179).\<close>

definition compute_or_improve_path :: "nat \<Rightarrow> real \<Rightarrow> 'n planner \<Rightarrow> 'n outcome option" where
  "compute_or_improve_path fuel eps P =
     (if initialize P
      then main_loop fuel (P\<lparr>epsilon := eps, initialize := False\<rparr>)
      else main_loop fuel (reprime (P\<lparr>epsilon := eps\<rparr>)))"

subsection \<open>Construction (lines 112 to 137)\<close>

text \<open>
  The message of line 113 formats the two nodes with Python's \<open>str\<close>, which the
  model takes as the parameter \<open>fmt\<close>.
\<close>

definition not_found_msg :: "('n \<Rightarrow> string) \<Rightarrow> 'n \<Rightarrow> 'n \<Rightarrow> string" where
  "not_found_msg fmt a b =
     ''Either source '' @ fmt a @ '' or target '' @ fmt b @ '' is not in G''"

definition init_planner ::
  "'n \<Rightarrow> 'n \<Rightarrow> 'n graph \<Rightarrow> ('n \<Rightarrow> 'n \<Rightarrow> real) \<Rightarrow> real \<Rightarrow> 'n planner" where
  "init_planner a b gr h eps =
     (let P0 = \<lparr>s_start = a, s_goal = b, heursistic = h, G = gr,
                g = (\<lambda>s. PInf), rhs = (\<lambda>s. PInf)(b := Fin 0), OPEN = [],
                epsilon = eps, CLOSED = {}, INCONS = [], visited = {},
                initialize = True\<rparr>
      in P0\<lparr>OPEN := AList.update b (key P0 b) (OPEN P0)\<rparr>)"

definition ADA_star ::
  "('n \<Rightarrow> string) \<Rightarrow> nat \<Rightarrow> 'n \<Rightarrow> 'n \<Rightarrow> 'n graph \<Rightarrow> ('n \<Rightarrow> 'n \<Rightarrow> real) \<Rightarrow> real
   \<Rightarrow> (error + 'n planner) option" where
  "ADA_star fmt fuel a b gr h initial_epsilon =
     (if a \<notin> set (nodes gr) \<or> b \<notin> set (nodes gr)
      then Some (Inl (NodeNotFound (not_found_msg fmt a b)))
      else (case compute_or_improve_path fuel initial_epsilon
                   (init_planner a b gr h initial_epsilon) of
              None \<Rightarrow> None
            | Some (Raise e P) \<Rightarrow> Some (Inl e)
            | Some (Ok P) \<Rightarrow> Some (Inr P)))"

subsection \<open>\<open>extract_path\<close> (lines 241 to 258)\<close>

text \<open>
  \<open>min(neighbours, key=...)\<close>: \<open>ValueError\<close> on no neighbour, the key function is
  called on every neighbour in order, and the first neighbour of least key wins.
\<close>

fun min_scan :: "'n planner \<Rightarrow> 'n \<Rightarrow> 'n list \<Rightarrow> 'n \<Rightarrow> cost \<Rightarrow> error + 'n" where
  "min_scan P s [] best bestv = Inr best"
| "min_scan P s (x # xs) best bestv =
     (case cost (G P) s x of
        Inl e \<Rightarrow> Inl e
      | Inr c \<Rightarrow> (if g P x + c < bestv then min_scan P s xs x (g P x + c)
                  else min_scan P s xs best bestv))"

definition min_neighbour :: "'n planner \<Rightarrow> 'n \<Rightarrow> 'n list \<Rightarrow> error + 'n" where
  "min_neighbour P s nb =
     (case nb of
        [] \<Rightarrow> Inl ValueError
      | x # xs \<Rightarrow> (case cost (G P) s x of
                     Inl e \<Rightarrow> Inl e
                   | Inr c \<Rightarrow> min_scan P s xs x (g P x + c)))"

fun extract_loop :: "nat \<Rightarrow> 'n planner \<Rightarrow> 'n \<Rightarrow> 'n list \<Rightarrow> (error + 'n list) option" where
  "extract_loop 0 P s path = None"
| "extract_loop (Suc n) P s path =
     (case get_neighbor (G P) s of
        Inl e \<Rightarrow> Some (Inl e)
      | Inr nb \<Rightarrow>
          (case min_neighbour P s nb of
             Inl e \<Rightarrow> Some (Inl e)
           | Inr s' \<Rightarrow>
               if s' = s_goal P then Some (Inr (path @ [s']))
               else extract_loop n P s' (path @ [s'])))"

definition extract_path :: "nat \<Rightarrow> 'n planner \<Rightarrow> (error + 'n list) option" where
  "extract_path fuel P = extract_loop fuel P (s_start P) [s_start P]"

subsection \<open>\<open>update_graph\<close> (lines 261 to 279)\<close>

definition apply_change :: "'n planner \<Rightarrow> 'n \<times> 'n \<times> cost \<Rightarrow> 'n outcome" where
  "apply_change P change =
     (case change of (a, b, w) \<Rightarrow>
        (case set_weight (G P) a b w of
           Inl e \<Rightarrow> Raise e P
         | Inr gr1 \<Rightarrow>
             (let P1 = P\<lparr>G := gr1\<rparr>
              in case set_weight (G P1) b a w of
                   Inl e \<Rightarrow> Raise e P1
                 | Inr gr2 \<Rightarrow>
                     (let P2 = P1\<lparr>G := gr2\<rparr>
                      in case update_state P2 a of
                           Raise e P3 \<Rightarrow> Raise e P3
                         | Ok P3 \<Rightarrow> update_state P3 b))))"

fun apply_changes :: "'n planner \<Rightarrow> ('n \<times> 'n \<times> cost) list \<Rightarrow> 'n outcome" where
  "apply_changes P [] = Ok P"
| "apply_changes P (change # changes) =
     (case apply_change P change of
        Raise e P' \<Rightarrow> Raise e P'
      | Ok P' \<Rightarrow> apply_changes P' changes)"

definition update_graph :: "'n planner \<Rightarrow> ('n \<times> 'n \<times> cost) list \<Rightarrow> 'n outcome" where
  "update_graph P changes =
     (case apply_changes P changes of
        Raise e P' \<Rightarrow> Raise e P'
      | Ok P' \<Rightarrow> Ok (reprime P'))"

section \<open>Frame of the queue operations\<close>

text \<open>
  \<open>frame_update_state P P'\<close>: every field but \<open>rhs\<close>, \<open>OPEN\<close> and \<open>INCONS\<close> is the
  same in \<open>P'\<close> as in \<open>P\<close>. \<open>frame_update_graph P P'\<close> also lets \<open>G\<close> and \<open>CLOSED\<close>
  differ.
\<close>

definition frame_update_state :: "'n planner \<Rightarrow> 'n planner \<Rightarrow> bool" where
  "frame_update_state P P' =
     (g P' = g P \<and> s_start P' = s_start P \<and> s_goal P' = s_goal P
      \<and> heursistic P' = heursistic P \<and> epsilon P' = epsilon P
      \<and> visited P' = visited P \<and> initialize P' = initialize P
      \<and> G P' = G P \<and> CLOSED P' = CLOSED P)"

definition frame_update_graph :: "'n planner \<Rightarrow> 'n planner \<Rightarrow> bool" where
  "frame_update_graph P P' =
     (g P' = g P \<and> s_start P' = s_start P \<and> s_goal P' = s_goal P
      \<and> heursistic P' = heursistic P \<and> epsilon P' = epsilon P
      \<and> visited P' = visited P \<and> initialize P' = initialize P)"

lemma frame_update_state_refl: "frame_update_state P P"
  by (simp add: frame_update_state_def)

lemma frame_update_state_trans:
  "frame_update_state P P' \<Longrightarrow> frame_update_state P' P'' \<Longrightarrow> frame_update_state P P''"
  by (simp add: frame_update_state_def)

lemma frame_update_graph_refl: "frame_update_graph P P"
  by (simp add: frame_update_graph_def)

lemma frame_update_graph_trans:
  "frame_update_graph P P' \<Longrightarrow> frame_update_graph P' P'' \<Longrightarrow> frame_update_graph P P''"
  by (simp add: frame_update_graph_def)

lemma frame_state_imp_graph: "frame_update_state P P' \<Longrightarrow> frame_update_graph P P'"
  by (simp add: frame_update_state_def frame_update_graph_def)

lemma rhs_scan_frame: "frame_update_state P (the_planner (rhs_scan P s xs))"
proof (induction xs arbitrary: P)
  case Nil
  show ?case by (simp add: frame_update_state_refl)
next
  case (Cons x xs)
  show ?case
  proof (cases "cost (G P) s x")
    case (Inl e)
    then show ?thesis by (simp add: frame_update_state_refl)
  next
    case (Inr c)
    let ?P1 = "P\<lparr>rhs := (rhs P)(s := min (rhs P s) (g P x + c))\<rparr>"
    have a: "frame_update_state P ?P1"
      by (simp add: frame_update_state_def)
    have b: "frame_update_state ?P1 (the_planner (rhs_scan ?P1 s xs))"
      by (rule Cons.IH)
    have "frame_update_state P (the_planner (rhs_scan ?P1 s xs))"
      by (rule frame_update_state_trans [OF a b])
    then show ?thesis using Inr by simp
  qed
qed

lemma requeue_frame: "frame_update_state P (requeue P s)"
  by (simp add: requeue_def frame_update_state_def Let_def)

lemma update_state_frame: "frame_update_state P (the_planner (update_state P s))"
proof (cases "s = s_goal P")
  case True
  then show ?thesis by (simp add: update_state_def requeue_frame)
next
  case False
  let ?P0 = "P\<lparr>rhs := (rhs P)(s := PInf)\<rparr>"
  have f0: "frame_update_state P ?P0"
    by (simp add: frame_update_state_def)
  show ?thesis
  proof (cases "get_neighbor (G ?P0) s")
    case (Inl e)
    then show ?thesis using False f0 by (simp add: update_state_def Let_def)
  next
    case (Inr nb)
    have f1: "frame_update_state P (the_planner (rhs_scan ?P0 s nb))"
      by (rule frame_update_state_trans [OF f0 rhs_scan_frame])
    show ?thesis
    proof (cases "rhs_scan ?P0 s nb")
      case (Ok P1)
      then have "frame_update_state P P1" using f1 by simp
      then have "frame_update_state P (requeue P1 s)"
        by (rule frame_update_state_trans [OF _ requeue_frame])
      then show ?thesis using False Inr Ok by (simp add: update_state_def Let_def)
    next
      case (Raise e P1)
      then show ?thesis using False Inr f1 by (simp add: update_state_def Let_def)
    qed
  qed
qed

lemma update_states_frame: "frame_update_state P (the_planner (update_states P sns))"
proof (induction sns arbitrary: P)
  case Nil
  show ?case by (simp add: frame_update_state_refl)
next
  case (Cons sn sns)
  show ?case
  proof (cases "update_state P sn")
    case (Ok P')
    then have "frame_update_state P P'"
      using update_state_frame [of P sn] by simp
    then have "frame_update_state P (the_planner (update_states P' sns))"
      by (rule frame_update_state_trans [OF _ Cons.IH])
    then show ?thesis using Ok by simp
  next
    case (Raise e P')
    then show ?thesis using update_state_frame [of P sn] by simp
  qed
qed

lemma rekey_frame: "frame_update_state P (rekey P states)"
proof (induction states arbitrary: P)
  case Nil
  show ?case by (simp add: frame_update_state_refl)
next
  case (Cons state states)
  let ?P1 = "P\<lparr>OPEN := AList.update state (key P state) (OPEN P)\<rparr>"
  have a: "frame_update_state P ?P1"
    by (simp add: frame_update_state_def)
  have "frame_update_state P (rekey ?P1 states)"
    by (rule frame_update_state_trans [OF a Cons.IH])
  then show ?case by simp
qed

lemma reprime_frame: "frame_update_graph P (reprime P)"
proof -
  let ?P1 = "rekey P (map fst (INCONS P))"
  let ?P2 = "?P1\<lparr>INCONS := []\<rparr>"
  let ?P3 = "rekey ?P2 (map fst (OPEN ?P2))"
  have a: "frame_update_state P ?P1" by (rule rekey_frame)
  have b: "frame_update_state ?P1 ?P2" by (simp add: frame_update_state_def)
  have c: "frame_update_state ?P2 ?P3" by (rule rekey_frame)
  have "frame_update_state P ?P3"
    by (rule frame_update_state_trans [OF frame_update_state_trans [OF a b] c])
  then have d: "frame_update_graph P ?P3" by (rule frame_state_imp_graph)
  have e: "frame_update_graph ?P3 (?P3\<lparr>CLOSED := {}\<rparr>)"
    by (simp add: frame_update_graph_def)
  have "frame_update_graph P (?P3\<lparr>CLOSED := {}\<rparr>)"
    by (rule frame_update_graph_trans [OF d e])
  then show ?thesis
    by (simp add: reprime_def Let_def)
qed

lemma update_state_frame_graph: "frame_update_graph P (the_planner (update_state P s))"
  by (rule frame_state_imp_graph [OF update_state_frame])

lemma apply_change_frame: "frame_update_graph P (the_planner (apply_change P change))"
proof -
  obtain a b w where ch: "change = (a, b, w)" by (cases change) auto
  show ?thesis
  proof (cases "set_weight (G P) a b w")
    case (Inl e)
    then show ?thesis using ch by (simp add: apply_change_def frame_update_graph_refl)
  next
    case (Inr gr1)
    let ?P1 = "P\<lparr>G := gr1\<rparr>"
    have f1: "frame_update_graph P ?P1" by (simp add: frame_update_graph_def)
    show ?thesis
    proof (cases "set_weight gr1 b a w")
      case (Inl e)
      then show ?thesis using ch Inr f1 by (simp add: apply_change_def)
    next
      case gr2: (Inr gr2)
      let ?P2 = "?P1\<lparr>G := gr2\<rparr>"
      have f2: "frame_update_graph P ?P2" by (simp add: frame_update_graph_def)
      have f3: "frame_update_graph P (the_planner (update_state ?P2 a))"
        by (rule frame_update_graph_trans [OF f2 update_state_frame_graph])
      show ?thesis
      proof (cases "update_state ?P2 a")
        case (Ok P3)
        then have "frame_update_graph P P3" using f3 by simp
        then have "frame_update_graph P (the_planner (update_state P3 b))"
          by (rule frame_update_graph_trans [OF _ update_state_frame_graph])
        then show ?thesis using ch Inr gr2 Ok by (simp add: apply_change_def)
      next
        case (Raise e P3)
        then show ?thesis using ch Inr gr2 f3 by (simp add: apply_change_def)
      qed
    qed
  qed
qed

lemma apply_changes_frame: "frame_update_graph P (the_planner (apply_changes P changes))"
proof (induction changes arbitrary: P)
  case Nil
  show ?case by (simp add: frame_update_graph_refl)
next
  case (Cons change changes)
  show ?case
  proof (cases "apply_change P change")
    case (Ok P')
    then have "frame_update_graph P P'" using apply_change_frame [of P change] by simp
    then have "frame_update_graph P (the_planner (apply_changes P' changes))"
      by (rule frame_update_graph_trans [OF _ Cons.IH])
    then show ?thesis using Ok by simp
  next
    case (Raise e P')
    then show ?thesis using apply_change_frame [of P change] by simp
  qed
qed

lemma update_graph_frame: "frame_update_graph P (the_planner (update_graph P changes))"
proof (cases "apply_changes P changes")
  case (Ok P')
  then have "frame_update_graph P P'" using apply_changes_frame [of P changes] by simp
  then have "frame_update_graph P (reprime P')"
    by (rule frame_update_graph_trans [OF _ reprime_frame])
  then show ?thesis using Ok by (simp add: update_graph_def)
next
  case (Raise e P')
  then show ?thesis using apply_changes_frame [of P changes] by (simp add: update_graph_def)
qed

section \<open>Keys and their order\<close>

text \<open>
  C4. \<open>key(s)\<close> is \<open>[rhs(s) + epsilon * h(start, s), rhs(s)]\<close> when \<open>g(s) > rhs(s)\<close> and
  \<open>[g(s) + h(start, s), g(s)]\<close> otherwise, and \<open>key_lt\<close> is the lexicographic order: the
  smaller primary component wins, and on equal primaries the smaller secondary wins.
\<close>

theorem key_cases_and_key_lt_lexicographic:
  "key P s =
     (if rhs P s < g P s
      then (rhs P s + Fin (epsilon P * heursistic P (s_start P) s), rhs P s)
      else (g P s + Fin (heursistic P (s_start P) s), g P s))
   \<and> key_lt k1 k2 = (fst k1 < fst k2 \<or> (fst k1 = fst k2 \<and> snd k1 < snd k2))"
  by (simp add: key_def key_lt_def)

text \<open>
  C10. A state that is not overconsistent, in particular a consistent one
  (\<open>g(s) = rhs(s)\<close>), gets the uninflated key \<open>[g(s) + h(start, s), g(s)]\<close>; so the test
  of line 164 compares the smallest open key with the uninflated key of the start once
  the start is consistent.
\<close>

theorem consistent_key_uninflated:
  "(\<not> rhs P s < g P s
      \<longrightarrow> key P s = (g P s + Fin (heursistic P (s_start P) s), g P s))
   \<and> (g P s = rhs P s
      \<longrightarrow> key P s = (g P s + Fin (heursistic P (s_start P) s), g P s))
   \<and> (rhs P (s_start P) = g P (s_start P)
      \<longrightarrow> loop_done P =
          (\<not> key_lt (snd (smallest_key P))
               (g P (s_start P) + Fin (heursistic P (s_start P) (s_start P)),
                g P (s_start P))))"
  by (simp add: key_def loop_done_def)

section \<open>What only the main loop writes\<close>

text \<open>
  C9. \<open>update_state\<close> and \<open>update_graph\<close> leave every entry of \<open>g\<close> as it was, whether
  they return or raise: \<open>update_state\<close> writes \<open>rhs\<close>, \<open>OPEN\<close> and \<open>INCONS\<close> only, and
  \<open>update_graph\<close> writes those, the stored weights and \<open>CLOSED\<close>. \<open>extract_path\<close> reads
  the planner and writes nothing, so its model returns no planner at all.
\<close>

theorem g_written_only_by_main_loop:
  "g (the_planner (update_state P s)) = g P
   \<and> g (the_planner (update_graph P changes)) = g P
   \<and> frame_update_state P (the_planner (update_state P s))
   \<and> frame_update_graph P (the_planner (update_graph P changes))"
  using update_state_frame [of P s] update_graph_frame [of P changes]
  by (simp add: frame_update_state_def frame_update_graph_def)

section \<open>Construction with a missing endpoint\<close>

text \<open>
  C8. When the start or the goal is not a node of the graph, construction raises
  \<open>NodeNotFound\<close> with the message of line 113, which contains both endpoints as
  formatted, and this for any fuel, also none: the loop is never entered.
\<close>

theorem ADA_star_node_not_found:
  assumes "a \<notin> set (nodes gr) \<or> b \<notin> set (nodes gr)"
  shows "ADA_star fmt fuel a b gr h eps
           = Some (Inl (NodeNotFound (not_found_msg fmt a b)))
         \<and> sublist (fmt a) (not_found_msg fmt a b)
         \<and> sublist (fmt b) (not_found_msg fmt a b)"
proof -
  have "sublist (fmt a) (''Either source '' @ fmt a @ ('' or target '' @ fmt b @ '' is not in G''))"
    by (rule sublist_appendI)
  then have sa: "sublist (fmt a) (not_found_msg fmt a b)"
    by (simp add: not_found_msg_def)
  have "sublist (fmt b) ((''Either source '' @ fmt a @ '' or target '') @ fmt b @ '' is not in G'')"
    by (rule sublist_appendI)
  then have sb: "sublist (fmt b) (not_found_msg fmt a b)"
    by (simp add: not_found_msg_def)
  show ?thesis
    using assms sa sb by (simp add: ADA_star_def)
qed

definition tri_graph :: "nat graph" where
  "tri_graph =
     [(0, [(2, Some (Fin 2)), (1, Some (Fin 4))]),
      (1, [(2, Some (Fin 1)), (0, Some (Fin 4))]),
      (2, [(1, Some (Fin 1)), (0, Some (Fin 2))])]"

definition tri_h :: "nat \<Rightarrow> nat \<Rightarrow> real" where
  "tri_h u v = (if v = 0 then 1 else if v = 2 then 1 else 0)"

definition node_name :: "nat \<Rightarrow> string" where
  "node_name n = (if n = 0 then ''0'' else if n = 1 then ''1'' else if n = 2 then ''2'' else ''7'')"

theorem ADA_star_node_not_found_witness:
  "7 \<notin> set (nodes tri_graph)
   \<and> ADA_star node_name 0 1 7 tri_graph tri_h 2
       = Some (Inl (NodeNotFound ''Either source 1 or target 7 is not in G''))
   \<and> sublist ''7'' ''Either source 1 or target 7 is not in G''"
proof -
  have h7: "7 \<notin> set (nodes tri_graph)"
    by (simp add: nodes_def tri_graph_def)
  then have h: "1 \<notin> set (nodes tri_graph) \<or> 7 \<notin> set (nodes tri_graph)"
    by (rule disjI2)
  have m: "not_found_msg node_name 1 7 = ''Either source 1 or target 7 is not in G''"
    by (simp add: not_found_msg_def node_name_def)
  have n: "node_name 7 = ''7''"
    by (simp add: node_name_def)
  have t: "ADA_star node_name 0 1 7 tri_graph tri_h 2
             = Some (Inl (NodeNotFound ''Either source 1 or target 7 is not in G''))
           \<and> sublist (node_name 1) ''Either source 1 or target 7 is not in G''
           \<and> sublist ''7'' ''Either source 1 or target 7 is not in G''"
    using ADA_star_node_not_found [OF h, of node_name 0 tri_h 2] unfolding m n .
  show ?thesis
    using h7 t by blast
qed

section \<open>Runs of the planner on small graphs\<close>

text \<open>
  The planner a call left behind when it returned, and \<open>d\<close> when it raised or ran out
  of fuel.
\<close>

definition returned :: "'n outcome option \<Rightarrow> 'n planner \<Rightarrow> 'n planner" where
  "returned r d = (case r of Some (Ok P) \<Rightarrow> P | _ \<Rightarrow> d)"

definition has_returned :: "'n outcome option \<Rightarrow> bool" where
  "has_returned r = (case r of Some (Ok P) \<Rightarrow> True | _ \<Rightarrow> False)"

definition is_ok :: "'n outcome \<Rightarrow> bool" where
  "is_ok r = (case r of Ok P \<Rightarrow> True | Raise e P \<Rightarrow> False)"

definition has_raised :: "'n outcome option \<Rightarrow> error \<Rightarrow> bool" where
  "has_raised r e = (case r of Some (Raise e' P) \<Rightarrow> e' = e | _ \<Rightarrow> False)"

text \<open>
  The total weight of a path, as \<open>nx.path_weight\<close> of the docstring computes it: the sum
  of \<open>cost\<close> over its consecutive pairs.
\<close>

fun path_weight :: "'n graph \<Rightarrow> 'n list \<Rightarrow> error + cost" where
  "path_weight gr (a # b # rest) =
     (case cost gr a b of
        Inl e \<Rightarrow> Inl e
      | Inr c \<Rightarrow> (case path_weight gr (b # rest) of
                    Inl e \<Rightarrow> Inl e
                  | Inr d \<Rightarrow> Inr (c + d)))"
| "path_weight gr path = Inr (Fin 0)"

text \<open>
  The heuristic is consistent for the start \<open>a\<close> on the graph: zero at \<open>a\<close>, never
  negative, and \<open>h(a, u) \<le> h(a, v) + cost(u, v)\<close> along every edge.
\<close>

definition heuristic_consistent :: "'n graph \<Rightarrow> 'n \<Rightarrow> ('n \<Rightarrow> 'n \<Rightarrow> real) \<Rightarrow> bool" where
  "heuristic_consistent gr a h =
     (h a a = 0
      \<and> list_all (\<lambda>(u, adj). 0 \<le> h a u
            \<and> list_all (\<lambda>(v, w). case w of None \<Rightarrow> False
                                    | Some c \<Rightarrow> Fin (h a u) \<le> Fin (h a v) + c) adj) gr)"

subsection \<open>The triangle: \<open>smallest_key\<close> on a tie of primaries\<close>

text \<open>
  The triangle with edges 2-1 of weight 1, 0-2 of weight 2 and 1-0 of weight 4, start 1,
  goal 0, epsilon 2. \<open>tri_open\<close> is the planner of the constructor's first pass through
  the loop body, after the goal was expanded.
\<close>

definition tri_start :: "nat planner" where
  "tri_start = (init_planner 1 0 tri_graph tri_h 2)\<lparr>epsilon := 2, initialize := False\<rparr>"

definition tri_open :: "nat planner" where
  "tri_open = the_planner (expand tri_start (fst (smallest_key tri_start)))"

text \<open>
  C3, at the open set \<open>{2: [4, 2], 1: [4, 4]}\<close> that the constructor reaches on the
  triangle: \<open>smallest_key\<close> returns state 1 with the pair \<open>[4, 2]\<close>. The pair is not the
  key of state 1, which is \<open>[4, 4]\<close>, and state 1 does not hold the least key: the key
  \<open>[4, 2]\<close> of state 2 is smaller.
\<close>

theorem smallest_key_tie_returns_larger:
  "heuristic_consistent tri_graph 1 tri_h
   \<and> OPEN tri_open = [(2, (Fin 4, Fin 2)), (1, (Fin 4, Fin 4))]
   \<and> smallest_key tri_open = (Some 1, (Fin 4, Fin 2))
   \<and> key_lt (Fin 4, Fin 2) (Fin 4, Fin 4)"
  by code_simp

lemma tri_constructor_raises:
  "has_raised (compute_or_improve_path 10 2 (init_planner 1 0 tri_graph tri_h 2)) KeyError"
  by code_simp

subsection \<open>An edge without the weight attribute\<close>

definition unweighted_pair :: "nat graph" where
  "unweighted_pair = [(0, [(1, None)]), (1, [(0, None)])]"

text \<open>
  C7, on the graph of one edge 0-1 whose weight attribute is unset: \<open>cost\<close> raises
  \<open>KeyError\<close> instead of giving 1, and so does the first \<open>update_state\<close> of the
  constructor's search from the goal 1.
\<close>

theorem cost_unset_weight_raises:
  "cost unweighted_pair 0 1 = Inl KeyError
   \<and> has_raised
        (compute_or_improve_path 5 1 (init_planner 0 1 unweighted_pair (\<lambda>u v. 0) 1))
        KeyError"
  by code_simp

subsection \<open>The ring: a weight change followed by a search at epsilon 1\<close>

text \<open>
  The ring 0-1-2-3-0 with weights 1, 1, 1 and 5 on the edge 3-0, start 0, goal 3,
  epsilon 1, the heuristic 1 at node 1 and 0 elsewhere. The edge 3-2 is then raised to
  4 and the search resumed at epsilon 1.
\<close>

definition ring_graph :: "nat graph" where
  "ring_graph =
     [(0, [(1, Some (Fin 1)), (3, Some (Fin 5))]),
      (1, [(0, Some (Fin 1)), (2, Some (Fin 1))]),
      (2, [(1, Some (Fin 1)), (3, Some (Fin 1))]),
      (3, [(0, Some (Fin 5)), (2, Some (Fin 1))])]"

definition ring_h :: "nat \<Rightarrow> nat \<Rightarrow> real" where
  "ring_h u v = (if v = 1 then 1 else 0)"

definition ring_init :: "nat planner" where
  "ring_init = init_planner 0 3 ring_graph ring_h 1"

definition ring_built :: "nat planner" where
  "ring_built = returned (compute_or_improve_path 20 1 ring_init) ring_init"

definition ring_changed :: "nat planner" where
  "ring_changed = the_planner (update_graph ring_built [(3, 2, Fin 4)])"

definition ring_replanned :: "nat planner" where
  "ring_replanned = returned (compute_or_improve_path 20 1 ring_changed) ring_changed"

text \<open>
  C1, on the ring: every call returns, the heuristic is consistent before and after the
  change, and the path extracted after the search at epsilon 1 is \<open>[0, 1, 2, 3]\<close> of
  weight 6, while the path \<open>[0, 3]\<close> has weight 5.
\<close>

theorem ring_path_exceeds_bound:
  "heuristic_consistent ring_graph 0 ring_h
   \<and> has_returned (compute_or_improve_path 20 1 ring_init)
   \<and> extract_path 10 ring_built = Some (Inr [0, 1, 2, 3])
   \<and> is_ok (update_graph ring_built [(3, 2, Fin 4)])
   \<and> heuristic_consistent (G ring_changed) 0 ring_h
   \<and> has_returned (compute_or_improve_path 20 1 ring_changed)
   \<and> extract_path 10 ring_replanned = Some (Inr [0, 1, 2, 3])
   \<and> path_weight (G ring_replanned) [0, 1, 2, 3] = Inr (Fin 6)
   \<and> path_weight (G ring_replanned) [0, 3] = Inr (Fin 5)
   \<and> Fin (1 * 5) < Fin 6"
  by code_simp

text \<open>
  The planner built on the ring has a consistent start, \<open>g(0) = rhs(0) = 3\<close>, whose key
  is \<open>[3, 3]\<close>.
\<close>

theorem consistent_key_uninflated_witness:
  "\<not> rhs ring_built 0 < g ring_built 0
   \<and> g ring_built 0 = rhs ring_built 0
   \<and> rhs ring_built (s_start ring_built) = g ring_built (s_start ring_built)
   \<and> s_start ring_built = 0
   \<and> key ring_built 0 = (Fin 3, Fin 3)
   \<and> loop_done ring_built
   \<and> \<not> key_lt (snd (smallest_key ring_built)) (Fin 3, Fin 3)"
proof -
  have a: "rhs ring_built 0 = Fin 3" by code_simp
  have b: "g ring_built 0 = Fin 3" by code_simp
  have c: "s_start ring_built = 0" by code_simp
  have d: "heursistic ring_built 0 0 = 0" by code_simp
  have e: "loop_done ring_built" by code_simp
  show ?thesis
    using consistent_key_uninflated [of ring_built 0] e
    by (simp add: a b c d)
qed

section \<open>Open, closed and INCONS\<close>

text \<open>
  \<open>queues_inv\<close>: no open state is closed, and every state recorded in \<open>INCONS\<close> is
  closed; so no state is both open and in \<open>INCONS\<close>.
\<close>

definition queues_inv :: "'n planner \<Rightarrow> bool" where
  "queues_inv P =
     ((\<forall>s. dict_mem (OPEN P) s \<longrightarrow> s \<notin> CLOSED P)
      \<and> (\<forall>s. dict_mem (INCONS P) s \<longrightarrow> s \<in> CLOSED P))"

text \<open>The claim as stated: every state is in at most one of the three sets.\<close>

definition in_at_most_one :: "'n planner \<Rightarrow> 'n \<Rightarrow> bool" where
  "in_at_most_one P s =
     (\<not> (dict_mem (OPEN P) s \<and> s \<in> CLOSED P)
      \<and> \<not> (dict_mem (OPEN P) s \<and> dict_mem (INCONS P) s)
      \<and> \<not> (s \<in> CLOSED P \<and> dict_mem (INCONS P) s))"

lemma dict_mem_update: "dict_mem (AList.update k v d) s = (s = k \<or> dict_mem d s)"
  by (auto simp: dict_mem_def AList.dom_update)

lemma dict_mem_delete: "dict_mem (AList.delete k d) s = (s \<noteq> k \<and> dict_mem d s)"
  by (auto simp: dict_mem_def AList.delete_eq)

lemma dict_mem_Nil: "dict_mem [] s = False"
  by (simp add: dict_mem_def)

lemma queues_inv_cong:
  "OPEN P' = OPEN P \<Longrightarrow> INCONS P' = INCONS P \<Longrightarrow> CLOSED P' = CLOSED P
   \<Longrightarrow> queues_inv P' = queues_inv P"
  by (simp add: queues_inv_def)

lemma rhs_scan_queues:
  "OPEN (the_planner (rhs_scan P s xs)) = OPEN P
   \<and> INCONS (the_planner (rhs_scan P s xs)) = INCONS P
   \<and> g (the_planner (rhs_scan P s xs)) = g P
   \<and> CLOSED (the_planner (rhs_scan P s xs)) = CLOSED P
   \<and> G (the_planner (rhs_scan P s xs)) = G P"
proof (induction xs arbitrary: P)
  case Nil
  show ?case by simp
next
  case (Cons x xs)
  show ?case
  proof (cases "cost (G P) s x")
    case (Inl e)
    then show ?thesis by simp
  next
    case (Inr c)
    then show ?thesis
      using Cons.IH [of "P\<lparr>rhs := (rhs P)(s := min (rhs P s) (g P x + c))\<rparr>"] by simp
  qed
qed

lemma requeue_queues_inv:
  assumes "queues_inv P"
  shows "queues_inv (requeue P s)"
  using assms
  by (simp add: requeue_def queues_inv_def Let_def dict_mem_update dict_mem_delete)

lemma update_state_queues_inv:
  assumes "queues_inv P"
  shows "queues_inv (the_planner (update_state P s))"
proof (cases "s = s_goal P")
  case True
  then show ?thesis using assms by (simp add: update_state_def requeue_queues_inv)
next
  case False
  let ?P0 = "P\<lparr>rhs := (rhs P)(s := PInf)\<rparr>"
  have q0: "queues_inv ?P0"
    using assms by (simp add: queues_inv_def)
  show ?thesis
  proof (cases "get_neighbor (G ?P0) s")
    case (Inl e)
    then show ?thesis using False q0 by (simp add: update_state_def Let_def)
  next
    case (Inr nb)
    have q1: "queues_inv (the_planner (rhs_scan ?P0 s nb))"
      using q0 rhs_scan_queues [of ?P0 s nb] queues_inv_cong by blast
    show ?thesis
    proof (cases "rhs_scan ?P0 s nb")
      case (Ok P1)
      then have "queues_inv (requeue P1 s)"
        using q1 requeue_queues_inv by simp
      then show ?thesis using False Inr Ok by (simp add: update_state_def Let_def)
    next
      case (Raise e P1)
      then show ?thesis using False Inr q1 by (simp add: update_state_def Let_def)
    qed
  qed
qed

text \<open>
  A property that every \<open>update_state\<close> keeps is kept by the loop over the neighbours,
  and one that every pass through the loop body keeps is kept by the loop.
\<close>

lemma update_states_preserves:
  assumes step: "\<And>Q s. I Q \<Longrightarrow> I (the_planner (update_state Q s))"
    and "I P"
  shows "I (the_planner (update_states P sns))"
  using assms(2)
proof (induction sns arbitrary: P)
  case Nil
  then show ?case by simp
next
  case (Cons sn sns)
  have i1: "I (the_planner (update_state P sn))"
    using step Cons.prems by blast
  show ?case
  proof (cases "update_state P sn")
    case (Ok P')
    then have "I P'" using i1 by simp
    then have "I (the_planner (update_states P' sns))" by (rule Cons.IH)
    then show ?thesis using Ok by simp
  next
    case (Raise e P')
    then show ?thesis using i1 by simp
  qed
qed

lemma main_loop_preserves:
  assumes step: "\<And>Q so. I Q \<Longrightarrow> I (the_planner (expand Q so))"
    and "I P" and "main_loop fuel P = Some r"
  shows "I (the_planner r)"
  using assms(2,3)
proof (induction fuel arbitrary: P)
  case 0
  then show ?case by simp
next
  case (Suc n)
  show ?case
  proof (cases "loop_done P")
    case True
    then show ?thesis using Suc.prems by auto
  next
    case False
    have i1: "I (the_planner (expand P (fst (smallest_key P))))"
      using step Suc.prems(1) by blast
    show ?thesis
    proof (cases "expand P (fst (smallest_key P))")
      case (Ok P')
      then have "I P'" using i1 by simp
      moreover have "main_loop n P' = Some r"
        using Suc.prems(2) False Ok by simp
      ultimately show ?thesis by (rule Suc.IH)
    next
      case (Raise e P')
      then have "r = Raise e P'" using Suc.prems(2) False by simp
      then show ?thesis using i1 Raise by simp
    qed
  qed
qed

lemma update_states_queues_inv:
  "queues_inv P \<Longrightarrow> queues_inv (the_planner (update_states P sns))"
  by (rule update_states_preserves [where I = queues_inv]) (rule update_state_queues_inv)

lemma expand_queues_inv:
  assumes "queues_inv P"
  shows "queues_inv (the_planner (expand P so))"
proof (cases so)
  case None
  then show ?thesis using assms by (simp add: expand_def)
next
  case (Some s)
  show ?thesis
  proof (cases "dict_mem (OPEN P) s")
    case False
    then show ?thesis using assms Some by (simp add: expand_def)
  next
    case True
    let ?P1 = "P\<lparr>OPEN := AList.delete s (OPEN P), visited := insert s (visited P)\<rparr>"
    let ?Pa = "?P1\<lparr>g := (g ?P1)(s := rhs ?P1 s), CLOSED := insert s (CLOSED ?P1)\<rparr>"
    let ?Pb = "?P1\<lparr>g := (g ?P1)(s := PInf)\<rparr>"
    have qa: "queues_inv ?Pa"
      using assms by (auto simp: queues_inv_def dict_mem_delete)
    have qb: "queues_inv ?Pb"
      using assms by (auto simp: queues_inv_def dict_mem_delete)
    show ?thesis
    proof (cases "rhs ?P1 s < g ?P1 s")
      case over: True
      show ?thesis
      proof (cases "get_neighbor (G ?Pa) s")
        case (Inl e)
        then show ?thesis
          using Some True over qa by (simp add: expand_def Let_def)
      next
        case (Inr nb)
        have "queues_inv (the_planner (update_states ?Pa nb))"
          using qa by (rule update_states_queues_inv)
        then show ?thesis
          using Some True over Inr by (simp add: expand_def Let_def)
      qed
    next
      case under: False
      show ?thesis
      proof (cases "get_neighbor (G ?Pb) s")
        case (Inl e)
        then show ?thesis
          using Some True under qb by (simp add: expand_def Let_def)
      next
        case (Inr nb)
        have q3: "queues_inv (the_planner (update_states ?Pb nb))"
          using qb by (rule update_states_queues_inv)
        show ?thesis
        proof (cases "update_states ?Pb nb")
          case (Ok P3)
          then have "queues_inv (the_planner (update_state P3 s))"
            using q3 update_state_queues_inv by simp
          then show ?thesis
            using Some True under Inr Ok by (simp add: expand_def Let_def)
        next
          case (Raise e P3)
          then show ?thesis
            using Some True under Inr q3 by (simp add: expand_def Let_def)
        qed
      qed
    qed
  qed
qed

lemma main_loop_queues_inv:
  "queues_inv P \<Longrightarrow> main_loop fuel P = Some r \<Longrightarrow> queues_inv (the_planner r)"
  by (rule main_loop_preserves [where I = queues_inv]) (rule expand_queues_inv)

lemma rekey_fields:
  "INCONS (rekey P states) = INCONS P \<and> CLOSED (rekey P states) = CLOSED P
   \<and> g (rekey P states) = g P \<and> rhs (rekey P states) = rhs P
   \<and> G (rekey P states) = G P \<and> epsilon (rekey P states) = epsilon P
   \<and> s_start (rekey P states) = s_start P \<and> s_goal (rekey P states) = s_goal P
   \<and> heursistic (rekey P states) = heursistic P
   \<and> initialize (rekey P states) = initialize P
   \<and> visited (rekey P states) = visited P"
proof (induction states arbitrary: P)
  case Nil
  show ?case by simp
next
  case (Cons state states)
  show ?case
    using Cons.IH [of "P\<lparr>OPEN := AList.update state (key P state) (OPEN P)\<rparr>"] by simp
qed

lemma reprime_queues: "CLOSED (reprime P) = {} \<and> INCONS (reprime P) = []"
  by (simp add: reprime_def Let_def rekey_fields)

lemma reprime_queues_inv: "queues_inv (reprime P)"
  by (simp add: queues_inv_def reprime_queues dict_mem_Nil)

lemma compute_or_improve_path_queues_inv:
  assumes "queues_inv P" and "compute_or_improve_path fuel eps P = Some r"
  shows "queues_inv (the_planner r)"
proof (cases "initialize P")
  case True
  have "queues_inv (P\<lparr>epsilon := eps, initialize := False\<rparr>)"
    using assms(1) by (simp add: queues_inv_def)
  moreover have "main_loop fuel (P\<lparr>epsilon := eps, initialize := False\<rparr>) = Some r"
    using assms(2) True by (simp add: compute_or_improve_path_def)
  ultimately show ?thesis by (rule main_loop_queues_inv)
next
  case False
  have "main_loop fuel (reprime (P\<lparr>epsilon := eps\<rparr>)) = Some r"
    using assms(2) False by (simp add: compute_or_improve_path_def)
  then show ?thesis
    using reprime_queues_inv main_loop_queues_inv by blast
qed

lemma apply_change_queues_inv:
  assumes "queues_inv P"
  shows "queues_inv (the_planner (apply_change P change))"
proof -
  obtain a b w where ch: "change = (a, b, w)" by (cases change) auto
  show ?thesis
  proof (cases "set_weight (G P) a b w")
    case (Inl e)
    then show ?thesis using ch assms by (simp add: apply_change_def)
  next
    case (Inr gr1)
    let ?P1 = "P\<lparr>G := gr1\<rparr>"
    have q1: "queues_inv ?P1" using assms by (simp add: queues_inv_def)
    show ?thesis
    proof (cases "set_weight gr1 b a w")
      case (Inl e)
      then show ?thesis using ch Inr q1 by (simp add: apply_change_def)
    next
      case gr2: (Inr gr2)
      let ?P2 = "?P1\<lparr>G := gr2\<rparr>"
      have q2: "queues_inv ?P2" using assms by (simp add: queues_inv_def)
      have q3: "queues_inv (the_planner (update_state ?P2 a))"
        using q2 by (rule update_state_queues_inv)
      show ?thesis
      proof (cases "update_state ?P2 a")
        case (Ok P3)
        then have "queues_inv (the_planner (update_state P3 b))"
          using q3 update_state_queues_inv by simp
        then show ?thesis using ch Inr gr2 Ok by (simp add: apply_change_def)
      next
        case (Raise e P3)
        then show ?thesis using ch Inr gr2 q3 by (simp add: apply_change_def)
      qed
    qed
  qed
qed

lemma apply_changes_queues_inv:
  "queues_inv P \<Longrightarrow> queues_inv (the_planner (apply_changes P changes))"
proof (induction changes arbitrary: P)
  case Nil
  then show ?case by simp
next
  case (Cons change changes)
  have q1: "queues_inv (the_planner (apply_change P change))"
    using Cons.prems by (rule apply_change_queues_inv)
  show ?case
  proof (cases "apply_change P change")
    case (Ok P')
    then have "queues_inv (the_planner (apply_changes P' changes))"
      using q1 Cons.IH by simp
    then show ?thesis using Ok by simp
  next
    case (Raise e P')
    then show ?thesis using q1 by simp
  qed
qed

lemma update_graph_queues_inv:
  assumes "queues_inv P"
  shows "queues_inv (the_planner (update_graph P changes))"
proof (cases "apply_changes P changes")
  case (Ok P')
  then show ?thesis by (simp add: update_graph_def reprime_queues_inv)
next
  case (Raise e P')
  then show ?thesis
    using apply_changes_queues_inv [OF assms, of changes] by (simp add: update_graph_def)
qed

lemma init_planner_queues_inv: "queues_inv (init_planner a b gr h eps)"
  by (simp add: init_planner_def queues_inv_def Let_def dict_mem_def)

subsection \<open>The planners a client can observe\<close>

text \<open>
  \<open>reached P\<close>: the planner \<open>P\<close> is met at a call boundary: after the tables are set
  up at construction, after the first lines of \<open>compute_or_improve_path\<close> (lines 146 to
  159), after a pass through the body of its loop, after an \<open>update_state\<close>, and after
  an \<open>update_graph\<close> or a prefix of its changes, whether the call returned or raised.
\<close>

inductive reached :: "'n planner \<Rightarrow> bool" where
  constructed: "reached (init_planner a b gr h eps)"
| first_call: "reached P \<Longrightarrow> reached (P\<lparr>epsilon := eps, initialize := False\<rparr>)"
| reprimed: "reached P \<Longrightarrow> reached (reprime (P\<lparr>epsilon := eps\<rparr>))"
| loop_pass: "reached P \<Longrightarrow> reached (the_planner (expand P so))"
| state_updated: "reached P \<Longrightarrow> reached (the_planner (update_state P s))"
| changes_applied: "reached P \<Longrightarrow> reached (the_planner (apply_changes P changes))"
| graph_updated: "reached P \<Longrightarrow> reached (the_planner (update_graph P changes))"

lemma reached_main_loop:
  "reached P \<Longrightarrow> main_loop fuel P = Some r \<Longrightarrow> reached (the_planner r)"
  by (rule main_loop_preserves [where I = reached]) (rule reached.loop_pass)

lemma reached_compute_or_improve_path:
  assumes "reached P" and "compute_or_improve_path fuel eps P = Some r"
  shows "reached (the_planner r)"
proof (cases "initialize P")
  case True
  have "reached (P\<lparr>epsilon := eps, initialize := False\<rparr>)"
    using assms(1) by (rule reached.first_call)
  moreover have "main_loop fuel (P\<lparr>epsilon := eps, initialize := False\<rparr>) = Some r"
    using assms(2) True by (simp add: compute_or_improve_path_def)
  ultimately show ?thesis by (rule reached_main_loop)
next
  case False
  have "reached (reprime (P\<lparr>epsilon := eps\<rparr>))"
    using assms(1) by (rule reached.reprimed)
  moreover have "main_loop fuel (reprime (P\<lparr>epsilon := eps\<rparr>)) = Some r"
    using assms(2) False by (simp add: compute_or_improve_path_def)
  ultimately show ?thesis by (rule reached_main_loop)
qed

lemma reached_returned:
  "reached P \<Longrightarrow> reached (returned (compute_or_improve_path fuel eps P) P)"
proof -
  assume r: "reached P"
  show ?thesis
  proof (cases "compute_or_improve_path fuel eps P")
    case None
    then show ?thesis using r by (simp add: returned_def)
  next
    case (Some out)
    then have "reached (the_planner out)"
      using r reached_compute_or_improve_path by blast
    then show ?thesis using Some r by (cases out) (simp_all add: returned_def)
  qed
qed

lemma reached_queues_inv: "reached P \<Longrightarrow> queues_inv P"
proof (induction rule: reached.induct)
  case (constructed a b gr h eps)
  show ?case by (rule init_planner_queues_inv)
next
  case (first_call P eps)
  then show ?case by (simp add: queues_inv_def)
next
  case (reprimed P eps)
  show ?case by (rule reprime_queues_inv)
next
  case (loop_pass P so)
  then show ?case by (simp add: expand_queues_inv)
next
  case (state_updated P s)
  then show ?case by (simp add: update_state_queues_inv)
next
  case (changes_applied P changes)
  then show ?case by (simp add: apply_changes_queues_inv)
next
  case (graph_updated P changes)
  then show ?case by (simp add: update_graph_queues_inv)
qed

subsection \<open>The kite: a closed state that becomes inconsistent\<close>

text \<open>
  The graph with edges 1-2 of weight 4, 0-2 of weight 1, 2-3 of weight 3, 0-3 of
  weight 1 and 1-3 of weight 1, start 1, goal 2, epsilon 2, the heuristic 1 at node 0
  and 0 elsewhere. \<open>kite_built\<close> is the planner after construction, \<open>kite_again\<close> the
  planner after a second \<open>compute_or_improve_path(2)\<close>.
\<close>

definition kite_graph :: "nat graph" where
  "kite_graph =
     [(0, [(2, Some (Fin 1)), (3, Some (Fin 1))]),
      (1, [(2, Some (Fin 4)), (3, Some (Fin 1))]),
      (2, [(1, Some (Fin 4)), (0, Some (Fin 1)), (3, Some (Fin 3))]),
      (3, [(2, Some (Fin 3)), (0, Some (Fin 1)), (1, Some (Fin 1))])]"

definition kite_h :: "nat \<Rightarrow> nat \<Rightarrow> real" where
  "kite_h u v = (if v = 0 then 1 else 0)"

definition kite_init :: "nat planner" where
  "kite_init = init_planner 1 2 kite_graph kite_h 2"

definition kite_built :: "nat planner" where
  "kite_built = returned (compute_or_improve_path 20 2 kite_init) kite_init"

definition kite_again :: "nat planner" where
  "kite_again = returned (compute_or_improve_path 20 2 kite_built) kite_built"

text \<open>
  C5 as stated fails on the kite: when the constructor returns, state 3 is recorded in
  \<open>INCONS\<close> and is in the closed set.
\<close>

theorem incons_state_is_closed_counterexample:
  "has_returned (compute_or_improve_path 20 2 kite_init)
   \<and> dict_mem (INCONS kite_built) 3
   \<and> 3 \<in> CLOSED kite_built
   \<and> \<not> in_at_most_one kite_built 3"
  by code_simp

text \<open>
  C5, amended. At every call boundary no open state is closed, no open state is in
  \<open>INCONS\<close>, and every state in \<open>INCONS\<close> is closed.
\<close>

theorem reached_open_closed_incons:
  assumes "reached P"
  shows "\<not> (dict_mem (OPEN P) s \<and> s \<in> CLOSED P)
         \<and> \<not> (dict_mem (OPEN P) s \<and> dict_mem (INCONS P) s)
         \<and> (dict_mem (INCONS P) s \<longrightarrow> s \<in> CLOSED P)"
  using reached_queues_inv [OF assms] by (auto simp: queues_inv_def)

theorem reached_open_closed_incons_witness:
  "reached kite_built
   \<and> \<not> (dict_mem (OPEN kite_built) 3 \<and> 3 \<in> CLOSED kite_built)
   \<and> \<not> (dict_mem (OPEN kite_built) 3 \<and> dict_mem (INCONS kite_built) 3)
   \<and> dict_mem (INCONS kite_built) 3
   \<and> 3 \<in> CLOSED kite_built"
proof -
  have "reached kite_init"
    unfolding kite_init_def by (rule reached.constructed)
  then have r: "reached kite_built"
    unfolding kite_built_def by (rule reached_returned)
  have i: "dict_mem (INCONS kite_built) 3"
    by code_simp
  show ?thesis
    using r i reached_open_closed_incons [OF r, of 3] by blast
qed

section \<open>Calling \<open>compute_or_improve_path\<close> again\<close>

text \<open>
  \<open>keys_fresh\<close>: every open state is stored with its current key. \<open>frame_expand\<close>: what
  a pass through the loop body never writes.
\<close>

definition keys_fresh :: "'n planner \<Rightarrow> bool" where
  "keys_fresh P = (\<forall>s k. map_of (OPEN P) s = Some k \<longrightarrow> key P s = k)"

definition keys_fresh_except :: "'n \<Rightarrow> 'n planner \<Rightarrow> bool" where
  "keys_fresh_except s P =
     (\<forall>t k. t \<noteq> s \<longrightarrow> map_of (OPEN P) t = Some k \<longrightarrow> key P t = k)"

definition frame_expand :: "'n planner \<Rightarrow> 'n planner \<Rightarrow> bool" where
  "frame_expand P P' =
     (s_start P' = s_start P \<and> s_goal P' = s_goal P \<and> heursistic P' = heursistic P
      \<and> epsilon P' = epsilon P \<and> initialize P' = initialize P \<and> G P' = G P)"

lemma key_cong:
  "g P' s = g P s \<Longrightarrow> rhs P' s = rhs P s \<Longrightarrow> epsilon P' = epsilon P
   \<Longrightarrow> heursistic P' = heursistic P \<Longrightarrow> s_start P' = s_start P
   \<Longrightarrow> key P' s = key P s"
  by (simp add: key_def)

lemma key_queue_updates:
  "key (P\<lparr>OPEN := op\<rparr>) s = key P s"
  "key (P\<lparr>INCONS := inc\<rparr>) s = key P s"
  "key (P\<lparr>CLOSED := cl\<rparr>) s = key P s"
  "key (P\<lparr>OPEN := op, visited := vi\<rparr>) s = key P s"
  by (simp_all add: key_def)

lemma keys_fresh_imp_except: "keys_fresh P \<Longrightarrow> keys_fresh_except s P"
  unfolding keys_fresh_def keys_fresh_except_def by blast

lemma rhs_scan_rhs_other:
  "t \<noteq> s \<Longrightarrow> rhs (the_planner (rhs_scan P s xs)) t = rhs P t"
proof (induction xs arbitrary: P)
  case Nil
  show ?case by simp
next
  case (Cons x xs)
  show ?case
  proof (cases "cost (G P) s x")
    case (Inl e)
    then show ?thesis by simp
  next
    case (Inr c)
    then show ?thesis
      using Cons.IH [OF Cons.prems, of "P\<lparr>rhs := (rhs P)(s := min (rhs P s) (g P x + c))\<rparr>"]
        Cons.prems
      by simp
  qed
qed

lemma rhs_scan_key_other:
  assumes "t \<noteq> s"
  shows "key (the_planner (rhs_scan P s xs)) t = key P t"
proof (rule key_cong)
  show "g (the_planner (rhs_scan P s xs)) t = g P t"
    using rhs_scan_queues [of P s xs] by simp
  show "rhs (the_planner (rhs_scan P s xs)) t = rhs P t"
    using assms by (rule rhs_scan_rhs_other)
  show "epsilon (the_planner (rhs_scan P s xs)) = epsilon P"
    using rhs_scan_frame [of P s xs] by (simp add: frame_update_state_def)
  show "heursistic (the_planner (rhs_scan P s xs)) = heursistic P"
    using rhs_scan_frame [of P s xs] by (simp add: frame_update_state_def)
  show "s_start (the_planner (rhs_scan P s xs)) = s_start P"
    using rhs_scan_frame [of P s xs] by (simp add: frame_update_state_def)
qed

lemma rhs_scan_keys_fresh_except:
  assumes "keys_fresh_except s P"
  shows "keys_fresh_except s (the_planner (rhs_scan P s xs))"
proof -
  have o: "OPEN (the_planner (rhs_scan P s xs)) = OPEN P"
    using rhs_scan_queues [of P s xs] by simp
  show ?thesis
    unfolding keys_fresh_except_def o
  proof (intro allI impI)
    fix t k
    assume ts: "t \<noteq> s" and "map_of (OPEN P) t = Some k"
    then have "key P t = k" using assms unfolding keys_fresh_except_def by blast
    then show "key (the_planner (rhs_scan P s xs)) t = k"
      using rhs_scan_key_other [OF ts, of P xs] by simp
  qed
qed

lemma delete_if_member:
  "(if dict_mem (OPEN P) s then P\<lparr>OPEN := AList.delete s (OPEN P)\<rparr> else P)
     = P\<lparr>OPEN := AList.delete s (OPEN P)\<rparr>"
proof (cases "dict_mem (OPEN P) s")
  case True
  then show ?thesis by simp
next
  case False
  then have "AList.delete s (OPEN P) = OPEN P"
    by (simp add: dict_mem_def)
  then show ?thesis using False by simp
qed

lemma requeue_unfold:
  "requeue P s =
     (if g P s \<noteq> rhs P s
      then (if s \<notin> CLOSED P
            then P\<lparr>OPEN := AList.update s (key P s) (AList.delete s (OPEN P))\<rparr>
            else P\<lparr>OPEN := AList.delete s (OPEN P), INCONS := AList.update s 0 (INCONS P)\<rparr>)
      else P\<lparr>OPEN := AList.delete s (OPEN P)\<rparr>)"
  unfolding requeue_def delete_if_member Let_def
  by (simp add: key_queue_updates)

lemma requeue_keys_fresh:
  assumes "keys_fresh_except s P"
  shows "keys_fresh (requeue P s)"
proof -
  have f1: "key P t = k" if "map_of (AList.delete s (OPEN P)) t = Some k" for t k
  proof -
    have ts: "t \<noteq> s" using that by (auto simp: AList.delete_conv')
    then have "map_of (OPEN P) t = Some k" using that by simp
    then show ?thesis using ts assms unfolding keys_fresh_except_def by blast
  qed
  have f2: "key P t = k"
    if "map_of (AList.update s (key P s) (AList.delete s (OPEN P))) t = Some k" for t k
  proof (cases "t = s")
    case True
    then show ?thesis using that by (simp add: AList.update_conv')
  next
    case False
    then have "map_of (AList.delete s (OPEN P)) t = Some k"
      using that by (simp add: AList.update_conv')
    then show ?thesis by (rule f1)
  qed
  have kq: "key (requeue P s) t = key P t" for t
    by (rule key_cong) (simp_all add: requeue_unfold)
  have "key (requeue P s) t = k" if m: "map_of (OPEN (requeue P s)) t = Some k" for t k
  proof (cases "g P s \<noteq> rhs P s \<and> s \<notin> CLOSED P")
    case True
    then have "OPEN (requeue P s) = AList.update s (key P s) (AList.delete s (OPEN P))"
      by (simp add: requeue_unfold)
    then have "map_of (AList.update s (key P s) (AList.delete s (OPEN P))) t = Some k"
      using m by simp
    then have "key P t = k" by (rule f2)
    then show ?thesis by (simp only: kq)
  next
    case False
    then have "OPEN (requeue P s) = AList.delete s (OPEN P)"
      by (auto simp: requeue_unfold)
    then have "map_of (AList.delete s (OPEN P)) t = Some k"
      using m by simp
    then have "key P t = k" by (rule f1)
    then show ?thesis by (simp only: kq)
  qed
  then show ?thesis
    unfolding keys_fresh_def by blast
qed

lemma update_state_keys_fresh:
  assumes "keys_fresh P" and "update_state P s = Ok P'"
  shows "keys_fresh P'"
proof (cases "s = s_goal P")
  case True
  then have "P' = requeue P s" using assms(2) by (simp add: update_state_def)
  moreover have "keys_fresh (requeue P s)"
    by (rule requeue_keys_fresh [OF keys_fresh_imp_except [OF assms(1)]])
  ultimately show ?thesis by simp
next
  case False
  let ?P0 = "P\<lparr>rhs := (rhs P)(s := PInf)\<rparr>"
  have k0: "\<And>t. t \<noteq> s \<Longrightarrow> key ?P0 t = key P t"
    by (simp add: key_def)
  have o0: "OPEN ?P0 = OPEN P" by simp
  have e0: "keys_fresh_except s ?P0"
    unfolding keys_fresh_except_def o0
  proof (intro allI impI)
    fix t k
    assume ts: "t \<noteq> s" and m: "map_of (OPEN P) t = Some k"
    have "key P t = k" using assms(1) m unfolding keys_fresh_def by blast
    then show "key ?P0 t = k" using k0 [OF ts] by simp
  qed
  show ?thesis
  proof (cases "get_neighbor (G ?P0) s")
    case (Inl e)
    then show ?thesis using False assms(2) by (simp add: update_state_def Let_def)
  next
    case (Inr nb)
    have e1: "keys_fresh_except s (the_planner (rhs_scan ?P0 s nb))"
      using e0 by (rule rhs_scan_keys_fresh_except)
    show ?thesis
    proof (cases "rhs_scan ?P0 s nb")
      case (Ok P1)
      then have "P' = requeue P1 s"
        using False Inr assms(2) by (simp add: update_state_def Let_def)
      moreover have "keys_fresh_except s P1" using e1 Ok by simp
      then have "keys_fresh (requeue P1 s)" by (rule requeue_keys_fresh)
      ultimately show ?thesis by simp
    next
      case (Raise e P1)
      then show ?thesis using False Inr assms(2) by (simp add: update_state_def Let_def)
    qed
  qed
qed

lemma update_states_preserves_ok:
  assumes step: "\<And>Q s Q'. I Q \<Longrightarrow> update_state Q s = Ok Q' \<Longrightarrow> I Q'"
    and "I P" and "update_states P sns = Ok P'"
  shows "I P'"
  using assms(2,3)
proof (induction sns arbitrary: P)
  case Nil
  then show ?case by simp
next
  case (Cons sn sns)
  show ?case
  proof (cases "update_state P sn")
    case (Ok P1)
    then have "I P1" using step Cons.prems(1) by blast
    moreover have "update_states P1 sns = Ok P'" using Cons.prems(2) Ok by simp
    ultimately show ?thesis by (rule Cons.IH)
  next
    case (Raise e P1)
    then show ?thesis using Cons.prems(2) by simp
  qed
qed

lemma main_loop_preserves_ok:
  assumes step: "\<And>Q so Q'. I Q \<Longrightarrow> expand Q so = Ok Q' \<Longrightarrow> I Q'"
    and "I P" and "main_loop fuel P = Some (Ok P')"
  shows "I P'"
  using assms(2,3)
proof (induction fuel arbitrary: P)
  case 0
  then show ?case by simp
next
  case (Suc n)
  show ?case
  proof (cases "loop_done P")
    case True
    then show ?thesis using Suc.prems by auto
  next
    case False
    show ?thesis
    proof (cases "expand P (fst (smallest_key P))")
      case (Ok P1)
      then have "I P1" using step Suc.prems(1) by blast
      moreover have "main_loop n P1 = Some (Ok P')"
        using Suc.prems(2) False Ok by simp
      ultimately show ?thesis by (rule Suc.IH)
    next
      case (Raise e P1)
      then show ?thesis using Suc.prems(2) False by simp
    qed
  qed
qed

lemma main_loop_done:
  "main_loop fuel Q = Some (Ok P) \<Longrightarrow> loop_done P"
proof (induction fuel arbitrary: Q)
  case 0
  then show ?case by simp
next
  case (Suc n)
  show ?case
  proof (cases "loop_done Q")
    case True
    then show ?thesis using Suc.prems by auto
  next
    case False
    show ?thesis
    proof (cases "expand Q (fst (smallest_key Q))")
      case (Ok P1)
      then have "main_loop n P1 = Some (Ok P)" using Suc.prems False by simp
      then show ?thesis by (rule Suc.IH)
    next
      case (Raise e P1)
      then show ?thesis using Suc.prems False by simp
    qed
  qed
qed

lemma update_states_keys_fresh:
  "keys_fresh P \<Longrightarrow> update_states P sns = Ok P' \<Longrightarrow> keys_fresh P'"
  by (rule update_states_preserves_ok [where I = keys_fresh]) (rule update_state_keys_fresh)

lemma expand_keys_fresh:
  assumes "keys_fresh P" and "expand P so = Ok P'"
  shows "keys_fresh P'"
proof (cases so)
  case None
  then show ?thesis using assms(2) by (simp add: expand_def)
next
  case (Some s)
  show ?thesis
  proof (cases "dict_mem (OPEN P) s")
    case False
    then show ?thesis using assms(2) Some by (simp add: expand_def)
  next
    case True
    let ?P1 = "P\<lparr>OPEN := AList.delete s (OPEN P), visited := insert s (visited P)\<rparr>"
    let ?Pa = "?P1\<lparr>g := (g ?P1)(s := rhs ?P1 s), CLOSED := insert s (CLOSED ?P1)\<rparr>"
    let ?Pb = "?P1\<lparr>g := (g ?P1)(s := PInf)\<rparr>"
    have d: "t \<noteq> s \<and> key P t = k"
      if "map_of (AList.delete s (OPEN P)) t = Some k" for t k
    proof -
      have ts: "t \<noteq> s" using that by (auto simp: AList.delete_conv')
      then have "map_of (OPEN P) t = Some k" using that by simp
      then show ?thesis using ts assms(1) unfolding keys_fresh_def by blast
    qed
    have ka: "\<And>t. t \<noteq> s \<Longrightarrow> key ?Pa t = key P t"
      by (simp add: key_def)
    have kb: "\<And>t. t \<noteq> s \<Longrightarrow> key ?Pb t = key P t"
      by (simp add: key_def)
    have oa: "OPEN ?Pa = AList.delete s (OPEN P)" by simp
    have ob: "OPEN ?Pb = AList.delete s (OPEN P)" by simp
    have fa: "keys_fresh ?Pa"
      unfolding keys_fresh_def oa
    proof (intro allI impI)
      fix t k
      assume "map_of (AList.delete s (OPEN P)) t = Some k"
      then have "t \<noteq> s \<and> key P t = k" by (rule d)
      then show "key ?Pa t = k" using ka [of t] by simp
    qed
    have fb: "keys_fresh ?Pb"
      unfolding keys_fresh_def ob
    proof (intro allI impI)
      fix t k
      assume "map_of (AList.delete s (OPEN P)) t = Some k"
      then have "t \<noteq> s \<and> key P t = k" by (rule d)
      then show "key ?Pb t = k" using kb [of t] by simp
    qed
    show ?thesis
    proof (cases "rhs ?P1 s < g ?P1 s")
      case over: True
      show ?thesis
      proof (cases "get_neighbor (G ?Pa) s")
        case (Inl e)
        then show ?thesis
          using Some True over assms(2) by (simp add: expand_def Let_def)
      next
        case (Inr nb)
        then have "update_states ?Pa nb = Ok P'"
          using Some True over assms(2) by (simp add: expand_def Let_def)
        then show ?thesis using fa by (rule update_states_keys_fresh [rotated])
      qed
    next
      case under: False
      show ?thesis
      proof (cases "get_neighbor (G ?Pb) s")
        case (Inl e)
        then show ?thesis
          using Some True under assms(2) by (simp add: expand_def Let_def)
      next
        case (Inr nb)
        show ?thesis
        proof (cases "update_states ?Pb nb")
          case (Ok P3)
          have f3: "keys_fresh P3" by (rule update_states_keys_fresh [OF fb Ok])
          have "update_state P3 s = Ok P'"
            using Some True under Inr Ok assms(2) by (simp add: expand_def Let_def)
          then show ?thesis by (rule update_state_keys_fresh [OF f3])
        next
          case (Raise e P3)
          then show ?thesis
            using Some True under Inr assms(2) by (simp add: expand_def Let_def)
        qed
      qed
    qed
  qed
qed

lemma main_loop_keys_fresh:
  "keys_fresh P \<Longrightarrow> main_loop fuel P = Some (Ok P') \<Longrightarrow> keys_fresh P'"
  by (rule main_loop_preserves_ok [where I = keys_fresh]) (rule expand_keys_fresh)

lemma frame_expand_refl: "frame_expand P P"
  by (simp add: frame_expand_def)

lemma frame_expand_trans:
  "frame_expand P P' \<Longrightarrow> frame_expand P' P'' \<Longrightarrow> frame_expand P P''"
  by (simp add: frame_expand_def)

lemma frame_state_imp_expand: "frame_update_state P P' \<Longrightarrow> frame_expand P P'"
  by (simp add: frame_update_state_def frame_expand_def)

lemma expand_frame: "frame_expand P (the_planner (expand P so))"
proof (cases so)
  case None
  then show ?thesis by (simp add: expand_def frame_expand_refl)
next
  case (Some s)
  show ?thesis
  proof (cases "dict_mem (OPEN P) s")
    case False
    then show ?thesis using Some by (simp add: expand_def frame_expand_refl)
  next
    case True
    let ?P1 = "P\<lparr>OPEN := AList.delete s (OPEN P), visited := insert s (visited P)\<rparr>"
    let ?Pa = "?P1\<lparr>g := (g ?P1)(s := rhs ?P1 s), CLOSED := insert s (CLOSED ?P1)\<rparr>"
    let ?Pb = "?P1\<lparr>g := (g ?P1)(s := PInf)\<rparr>"
    have fa: "frame_expand P ?Pa" by (simp add: frame_expand_def)
    have fb: "frame_expand P ?Pb" by (simp add: frame_expand_def)
    show ?thesis
    proof (cases "rhs ?P1 s < g ?P1 s")
      case over: True
      show ?thesis
      proof (cases "get_neighbor (G ?Pa) s")
        case (Inl e)
        then show ?thesis
          using Some True over fa by (simp add: expand_def Let_def)
      next
        case (Inr nb)
        have "frame_expand P (the_planner (update_states ?Pa nb))"
          by (rule frame_expand_trans [OF fa frame_state_imp_expand [OF update_states_frame]])
        then show ?thesis
          using Some True over Inr by (simp add: expand_def Let_def)
      qed
    next
      case under: False
      show ?thesis
      proof (cases "get_neighbor (G ?Pb) s")
        case (Inl e)
        then show ?thesis
          using Some True under fb by (simp add: expand_def Let_def)
      next
        case (Inr nb)
        have f3: "frame_expand P (the_planner (update_states ?Pb nb))"
          by (rule frame_expand_trans [OF fb frame_state_imp_expand [OF update_states_frame]])
        show ?thesis
        proof (cases "update_states ?Pb nb")
          case (Ok P3)
          then have "frame_expand P P3" using f3 by simp
          then have "frame_expand P (the_planner (update_state P3 s))"
            by (rule frame_expand_trans [OF _ frame_state_imp_expand [OF update_state_frame]])
          then show ?thesis
            using Some True under Inr Ok by (simp add: expand_def Let_def)
        next
          case (Raise e P3)
          then show ?thesis
            using Some True under Inr f3 by (simp add: expand_def Let_def)
        qed
      qed
    qed
  qed
qed

lemma main_loop_frame:
  assumes "main_loop fuel P = Some r"
  shows "frame_expand P (the_planner r)"
proof (rule main_loop_preserves [where I = "frame_expand P" and P = P])
  show "frame_expand P P" by (rule frame_expand_refl)
  show "main_loop fuel P = Some r" by (rule assms)
next
  fix Q so
  assume "frame_expand P Q"
  then show "frame_expand P (the_planner (expand Q so))"
    by (rule frame_expand_trans [OF _ expand_frame])
qed

lemma rekey_map_of:
  "map_of (OPEN (rekey P xs)) s
     = (if s \<in> set xs then Some (key P s) else map_of (OPEN P) s)"
proof (induction xs arbitrary: P)
  case Nil
  show ?case by simp
next
  case (Cons x xs)
  show ?case
    using Cons.IH [of "P\<lparr>OPEN := AList.update x (key P x) (OPEN P)\<rparr>"]
    by (simp add: key_queue_updates AList.update_conv')
qed

lemma rekey_key: "key (rekey P xs) s = key P s"
  by (rule key_cong) (simp_all add: rekey_fields)

lemma reprime_keys_fresh: "keys_fresh (reprime P)"
proof -
  let ?P2 = "(rekey P (map fst (INCONS P)))\<lparr>INCONS := []\<rparr>"
  let ?P3 = "rekey ?P2 (map fst (OPEN ?P2))"
  have r: "reprime P = ?P3\<lparr>CLOSED := {}\<rparr>"
    by (simp add: reprime_def Let_def)
  have o: "OPEN (?P3\<lparr>CLOSED := {}\<rparr>) = OPEN ?P3" by simp
  have "key (?P3\<lparr>CLOSED := {}\<rparr>) s = k" if m: "map_of (OPEN ?P3) s = Some k" for s k
  proof (cases "s \<in> set (map fst (OPEN ?P2))")
    case True
    then have "key ?P2 s = k"
      using m rekey_map_of [of ?P2 "map fst (OPEN ?P2)" s] by simp
    then show ?thesis by (simp only: rekey_key key_queue_updates)
  next
    case False
    then have "map_of (OPEN ?P2) s = Some k"
      using m rekey_map_of [of ?P2 "map fst (OPEN ?P2)" s] by simp
    then have "(s, k) \<in> set (OPEN ?P2)" by (rule map_of_SomeD)
    then have "s \<in> set (map fst (OPEN ?P2))" by force
    then show ?thesis using False by simp
  qed
  then show ?thesis
    unfolding r keys_fresh_def o by blast
qed

lemma rekey_fresh_id:
  assumes "keys_fresh P" and "set xs \<subseteq> fst ` set (OPEN P)"
  shows "rekey P xs = P"
  using assms(2)
proof (induction xs)
  case Nil
  show ?case by simp
next
  case (Cons x xs)
  then have "x \<in> fst ` set (OPEN P)" by simp
  then obtain v where "(x, v) \<in> set (OPEN P)" by auto
  then obtain v' where v': "map_of (OPEN P) x = Some v'"
    using weak_map_of_SomeI by fastforce
  then have "key P x = v'" using assms(1) unfolding keys_fresh_def by blast
  then have "AList.update x (key P x) (OPEN P) = OPEN P"
    using v' by (simp add: AList.update_triv)
  then show ?case using Cons by simp
qed

lemma reprime_fresh_id:
  assumes "keys_fresh P" and "INCONS P = []"
  shows "reprime P = P\<lparr>CLOSED := {}\<rparr>"
proof -
  have a: "rekey P (map fst (INCONS P)) = P" using assms(2) by simp
  have b: "P\<lparr>INCONS := []\<rparr> = P" using assms(2) by simp
  have c: "rekey P (map fst (OPEN P)) = P"
    using assms(1) by (rule rekey_fresh_id) simp
  show ?thesis
    by (simp add: reprime_def Let_def a b c)
qed

lemma compute_or_improve_path_returned:
  assumes ret: "compute_or_improve_path fuel eps P0 = Some (Ok P)"
    and fresh: "initialize P0 \<longrightarrow> keys_fresh (P0\<lparr>epsilon := eps\<rparr>)"
  shows "keys_fresh P \<and> loop_done P \<and> epsilon P = eps \<and> \<not> initialize P"
proof (cases "initialize P0")
  case True
  let ?Q = "P0\<lparr>epsilon := eps, initialize := False\<rparr>"
  have m: "main_loop fuel ?Q = Some (Ok P)"
    using ret True by (simp add: compute_or_improve_path_def)
  have k: "key ?Q s = key (P0\<lparr>epsilon := eps\<rparr>) s" for s
    by (simp add: key_def)
  have "keys_fresh (P0\<lparr>epsilon := eps\<rparr>)" using fresh True by simp
  then have "keys_fresh ?Q" unfolding keys_fresh_def by (simp add: k)
  then have "keys_fresh P" using m by (rule main_loop_keys_fresh)
  moreover have "loop_done P" using m by (rule main_loop_done)
  moreover have "epsilon P = eps \<and> \<not> initialize P"
    using main_loop_frame [OF m] by (simp add: frame_expand_def)
  ultimately show ?thesis by simp
next
  case False
  let ?Q = "reprime (P0\<lparr>epsilon := eps\<rparr>)"
  have m: "main_loop fuel ?Q = Some (Ok P)"
    using ret False by (simp add: compute_or_improve_path_def)
  have "keys_fresh P" using reprime_keys_fresh m by (rule main_loop_keys_fresh)
  moreover have "loop_done P" using m by (rule main_loop_done)
  moreover have "epsilon ?Q = eps \<and> \<not> initialize ?Q"
    using reprime_frame [of "P0\<lparr>epsilon := eps\<rparr>"] False
    by (simp add: frame_update_graph_def)
  then have "epsilon P = eps \<and> \<not> initialize P"
    using main_loop_frame [OF m] by (simp add: frame_expand_def)
  ultimately show ?thesis by simp
qed

lemma loop_done_CLOSED: "loop_done (P\<lparr>CLOSED := cl\<rparr>) = loop_done P"
  by (simp add: loop_done_def smallest_key_def key_queue_updates)

lemma min_scan_cong:
  "G P' = G P \<Longrightarrow> g P' = g P \<Longrightarrow> min_scan P' s xs best bestv = min_scan P s xs best bestv"
  by (induction xs arbitrary: best bestv) (simp_all split: sum.splits)

lemma min_neighbour_cong:
  assumes "G P' = G P" and "g P' = g P"
  shows "min_neighbour P' s nb = min_neighbour P s nb"
proof (cases nb)
  case Nil
  then show ?thesis by (simp add: min_neighbour_def)
next
  case (Cons x xs)
  show ?thesis
  proof (cases "cost (G P) s x")
    case (Inl e)
    then show ?thesis using Cons assms by (simp add: min_neighbour_def)
  next
    case (Inr c)
    have "min_scan P' s xs x (g P x + c) = min_scan P s xs x (g P x + c)"
      using assms by (rule min_scan_cong)
    then show ?thesis using Cons Inr assms by (simp add: min_neighbour_def)
  qed
qed

lemma extract_loop_cong:
  assumes "G P' = G P" and "g P' = g P" and "s_goal P' = s_goal P"
  shows "extract_loop n P' s path = extract_loop n P s path"
proof (induction n arbitrary: s path)
  case 0
  show ?case by simp
next
  case (Suc n)
  have m: "min_neighbour P' s nb = min_neighbour P s nb" for nb
    using assms(1,2) by (rule min_neighbour_cong)
  show ?case
  proof (cases "get_neighbor (G P) s")
    case (Inl e)
    then show ?thesis using assms by simp
  next
    case (Inr nb)
    show ?thesis
    proof (cases "min_neighbour P s nb")
      case e: (Inl e)
      then show ?thesis using assms Inr m by simp
    next
      case s': (Inr s')
      then show ?thesis using assms Inr m Suc.IH by simp
    qed
  qed
qed

lemma init_planner_keys_fresh: "keys_fresh ((init_planner a b gr h eps)\<lparr>epsilon := eps\<rparr>)"
  by (simp add: init_planner_def keys_fresh_def Let_def key_def)

lemma returned_eq: "has_returned r \<Longrightarrow> r = Some (Ok (returned r d))"
  by (auto simp: has_returned_def returned_def split: option.splits outcome.splits)

text \<open>
  C6 as stated fails on the kite: the constructor returns with state 3 in \<open>INCONS\<close> and
  the path \<open>[1, 2]\<close> of weight 4; \<open>compute_or_improve_path(2)\<close> called again, with the
  same epsilon and no change of the graph, moves state 3 back to \<open>OPEN\<close>, expands it,
  and the path becomes \<open>[1, 3, 0, 2]\<close> of weight 3.
\<close>

theorem improve_again_changes_path_counterexample:
  "has_returned (compute_or_improve_path 20 2 kite_init)
   \<and> extract_path 10 kite_built = Some (Inr [1, 2])
   \<and> has_returned (compute_or_improve_path 20 2 kite_built)
   \<and> extract_path 10 kite_again = Some (Inr [1, 3, 0, 2])
   \<and> path_weight (G kite_again) [1, 2] = Inr (Fin 4)
   \<and> path_weight (G kite_again) [1, 3, 0, 2] = Inr (Fin 3)"
  by code_simp

text \<open>
  C6, amended. When \<open>compute_or_improve_path(eps)\<close> has returned with \<open>INCONS\<close> empty,
  a second call with the same \<open>eps\<close> returns at the first test of line 164, having only
  emptied the closed set, and \<open>extract_path\<close> gives what it gave before. The first call
  is any call but a first one on a planner whose open keys were stored under another
  epsilon; the constructor stores them under the epsilon it passes on.
\<close>

theorem improve_again_same_epsilon:
  assumes ret: "compute_or_improve_path fuel eps P0 = Some (Ok P)"
    and fresh: "initialize P0 \<longrightarrow> keys_fresh (P0\<lparr>epsilon := eps\<rparr>)"
    and inc: "INCONS P = []"
  shows "compute_or_improve_path (Suc n) eps P = Some (Ok (P\<lparr>CLOSED := {}\<rparr>))
         \<and> extract_path m (P\<lparr>CLOSED := {}\<rparr>) = extract_path m P"
proof -
  have p: "keys_fresh P \<and> loop_done P \<and> epsilon P = eps \<and> \<not> initialize P"
    using ret fresh by (rule compute_or_improve_path_returned)
  then have e: "P\<lparr>epsilon := eps\<rparr> = P" by auto
  have r: "reprime P = P\<lparr>CLOSED := {}\<rparr>"
    using p inc by (simp add: reprime_fresh_id)
  have d: "loop_done (P\<lparr>CLOSED := {}\<rparr>)"
    using p by (simp add: loop_done_CLOSED)
  have "compute_or_improve_path (Suc n) eps P = main_loop (Suc n) (P\<lparr>CLOSED := {}\<rparr>)"
    using p by (simp add: compute_or_improve_path_def e r)
  then have c: "compute_or_improve_path (Suc n) eps P = Some (Ok (P\<lparr>CLOSED := {}\<rparr>))"
    using d by simp
  have "extract_loop m (P\<lparr>CLOSED := {}\<rparr>) (s_start P) [s_start P]
          = extract_loop m P (s_start P) [s_start P]"
    by (rule extract_loop_cong) simp_all
  then have x: "extract_path m (P\<lparr>CLOSED := {}\<rparr>) = extract_path m P"
    by (simp add: extract_path_def)
  show ?thesis using c x by simp
qed

theorem improve_again_same_epsilon_witness:
  "compute_or_improve_path 20 1 ring_init = Some (Ok ring_built)
   \<and> keys_fresh (ring_init\<lparr>epsilon := 1\<rparr>)
   \<and> INCONS ring_built = []
   \<and> compute_or_improve_path (Suc 0) 1 ring_built = Some (Ok (ring_built\<lparr>CLOSED := {}\<rparr>))
   \<and> extract_path 10 (ring_built\<lparr>CLOSED := {}\<rparr>) = Some (Inr [0, 1, 2, 3])"
proof -
  have "has_returned (compute_or_improve_path 20 1 ring_init)"
    by code_simp
  then have ret: "compute_or_improve_path 20 1 ring_init = Some (Ok ring_built)"
    unfolding ring_built_def by (rule returned_eq)
  have k: "keys_fresh (ring_init\<lparr>epsilon := 1\<rparr>)"
    unfolding ring_init_def by (rule init_planner_keys_fresh)
  then have fresh: "initialize ring_init \<longrightarrow> keys_fresh (ring_init\<lparr>epsilon := 1\<rparr>)"
    by simp
  have inc: "INCONS ring_built = []"
    by code_simp
  have x: "extract_path 10 ring_built = Some (Inr [0, 1, 2, 3])"
    by code_simp
  show ?thesis
    using ret k inc x improve_again_same_epsilon [OF ret fresh inc, of 0 10] by simp
qed

section \<open>A goal that cannot be reached\<close>

subsection \<open>Graphs\<close>

text \<open>
  \<open>neighbours_of\<close> is the adjacency of a node, empty for what is not a node; \<open>edge_rel\<close>
  the relation it induces. A graph is \<open>undirected\<close> when every edge is stored in both
  directions, as a networkx \<open>Graph\<close> stores it, and \<open>weighted\<close> when the weight
  attribute is set on every edge. \<open>shape\<close> forgets the weights.
\<close>

definition neighbours_of :: "'n graph \<Rightarrow> 'n \<Rightarrow> 'n list" where
  "neighbours_of gr s = (case map_of gr s of None \<Rightarrow> [] | Some adj \<Rightarrow> map fst adj)"

definition edge_rel :: "'n graph \<Rightarrow> ('n \<times> 'n) set" where
  "edge_rel gr = {(u, v). v \<in> set (neighbours_of gr u)}"

definition undirected :: "'n graph \<Rightarrow> bool" where
  "undirected gr =
     list_all (\<lambda>(u, adj). list_all (\<lambda>(v, w). u \<in> set (neighbours_of gr v)) adj) gr"

definition weighted :: "'n graph \<Rightarrow> bool" where
  "weighted gr = list_all (\<lambda>(u, adj). list_all (\<lambda>(v, w). w \<noteq> None) adj) gr"

definition shape :: "'n graph \<Rightarrow> ('n \<times> 'n list) list" where
  "shape gr = map (\<lambda>(n, adj). (n, map fst adj)) gr"

lemma neighbours_of_shape:
  "neighbours_of gr s = (case map_of (shape gr) s of None \<Rightarrow> [] | Some ns \<Rightarrow> ns)"
  by (simp add: neighbours_of_def shape_def map_of_map split: option.splits)

lemma node_shape: "(map_of gr s = None) = (map_of (shape gr) s = None)"
  by (simp add: shape_def map_of_map)

lemma nodes_shape: "nodes gr = map fst (shape gr)"
  by (simp add: nodes_def shape_def case_prod_unfold comp_def)

lemma shape_neighbours: "shape gr' = shape gr \<Longrightarrow> neighbours_of gr' s = neighbours_of gr s"
  by (simp add: neighbours_of_shape)

lemma shape_node: "shape gr' = shape gr \<Longrightarrow> (map_of gr' s = None) = (map_of gr s = None)"
  by (simp add: node_shape)

lemma node_iff: "(s \<in> set (nodes gr)) = (map_of gr s \<noteq> None)"
  by (simp add: nodes_def map_of_eq_None_iff)

lemma get_neighbor_node:
  "map_of gr s \<noteq> None \<Longrightarrow> get_neighbor gr s = Inr (neighbours_of gr s)"
  by (auto simp: get_neighbor_def neighbours_of_def)

lemma neighbour_entry:
  assumes "v \<in> set (neighbours_of gr u)"
  shows "\<exists>adj w. map_of gr u = Some adj \<and> (u, adj) \<in> set gr
                 \<and> map_of adj v = Some w \<and> (v, w) \<in> set adj"
proof -
  obtain adj where a: "map_of gr u = Some adj"
    using assms by (cases "map_of gr u") (auto simp: neighbours_of_def)
  then have v: "v \<in> fst ` set adj"
    using assms by (simp add: neighbours_of_def)
  then obtain w where w: "map_of adj v = Some w"
    by (cases "map_of adj v") (auto simp: map_of_eq_None_iff)
  have "(u, adj) \<in> set gr" using a by (rule map_of_SomeD)
  moreover have "(v, w) \<in> set adj" using w by (rule map_of_SomeD)
  ultimately show ?thesis using a w by blast
qed

lemma weighted_cost:
  assumes "weighted gr" and "v \<in> set (neighbours_of gr u)"
  shows "\<exists>c. cost gr u v = Inr c"
proof -
  obtain adj w where e: "map_of gr u = Some adj" "(u, adj) \<in> set gr"
      "map_of adj v = Some w" "(v, w) \<in> set adj"
    using neighbour_entry [OF assms(2)] by blast
  have "w \<noteq> None"
    using assms(1) e(2) e(4) by (auto simp: weighted_def list_all_iff)
  then obtain c where "w = Some c" by (cases w) auto
  then show ?thesis using e(1) e(3) by (simp add: cost_def)
qed

lemma undirected_sym:
  assumes "undirected gr" and "v \<in> set (neighbours_of gr u)"
  shows "u \<in> set (neighbours_of gr v)"
proof -
  obtain adj w where e: "(u, adj) \<in> set gr" "(v, w) \<in> set adj"
    using neighbour_entry [OF assms(2)] by blast
  show ?thesis
    using assms(1) e by (auto simp: undirected_def list_all_iff)
qed

lemma undirected_sym_rel: "undirected gr \<Longrightarrow> sym (edge_rel gr)"
  by (auto simp: sym_def edge_rel_def intro: undirected_sym)

lemma neighbour_is_node:
  assumes "undirected gr" and "v \<in> set (neighbours_of gr u)"
  shows "map_of gr v \<noteq> None"
proof -
  have "u \<in> set (neighbours_of gr v)" using assms by (rule undirected_sym)
  then show ?thesis by (cases "map_of gr v") (auto simp: neighbours_of_def)
qed

lemma set_update_subset: "set (AList.update k v al) \<subseteq> insert (k, v) (set al)"
  by (induction al) auto

lemma shape_update:
  assumes "map_of gr a = Some adj" and "map fst adj' = map fst adj"
  shows "shape (AList.update a adj' gr) = shape gr"
  using assms(1)
proof (induction gr)
  case Nil
  then show ?case by simp
next
  case (Cons p gr)
  show ?case
  proof (cases "fst p = a")
    case True
    then have "snd p = adj" using Cons.prems by (cases p) simp
    then show ?thesis using True assms(2) by (cases p) (simp add: shape_def)
  next
    case False
    then have "map_of gr a = Some adj" using Cons.prems by (cases p) simp
    then have "shape (AList.update a adj' gr) = shape gr" by (rule Cons.IH)
    then show ?thesis using False by (cases p) (simp add: shape_def)
  qed
qed

lemma set_weight_shape:
  assumes "set_weight gr a b w = Inr gr'"
  shows "shape gr' = shape gr"
proof -
  obtain adj where a: "map_of gr a = Some adj"
    using assms by (cases "map_of gr a") (auto simp: set_weight_def)
  obtain x where b: "map_of adj b = Some x"
    using assms a by (cases "map_of adj b") (auto simp: set_weight_def)
  have g: "gr' = AList.update a (AList.update b (Some w) adj) gr"
    using assms a b by (simp add: set_weight_def)
  have "(b, x) \<in> set adj" using b by (rule map_of_SomeD)
  then have "b \<in> set (map fst adj)" by force
  then have k: "map fst (AList.update b (Some w) adj) = map fst adj"
    by (simp add: AList.update_keys)
  show ?thesis unfolding g by (rule shape_update [OF a k])
qed

lemma set_weight_weighted:
  assumes "set_weight gr a b w = Inr gr'" and "weighted gr"
  shows "weighted gr'"
proof -
  obtain adj where a: "map_of gr a = Some adj"
    using assms(1) by (cases "map_of gr a") (auto simp: set_weight_def)
  obtain x where b: "map_of adj b = Some x"
    using assms(1) a by (cases "map_of adj b") (auto simp: set_weight_def)
  have g: "gr' = AList.update a (AList.update b (Some w) adj) gr"
    using assms(1) a b by (simp add: set_weight_def)
  have m: "(a, adj) \<in> set gr" using a by (rule map_of_SomeD)
  have old: "\<And>u ad v y. (u, ad) \<in> set gr \<Longrightarrow> (v, y) \<in> set ad \<Longrightarrow> y \<noteq> None"
    using assms(2) by (auto simp: weighted_def list_all_iff)
  have new: "y \<noteq> None" if "(v, y) \<in> set (AList.update b (Some w) adj)" for v y
  proof -
    have "(v, y) = (b, Some w) \<or> (v, y) \<in> set adj"
      using that set_update_subset [of b "Some w" adj] by auto
    then show ?thesis using old [OF m] by auto
  qed
  have "y \<noteq> None" if "(u, ad) \<in> set gr'" and "(v, y) \<in> set ad" for u ad v y
  proof -
    have "(u, ad) = (a, AList.update b (Some w) adj) \<or> (u, ad) \<in> set gr"
      using that(1) set_update_subset [of a "AList.update b (Some w) adj" gr]
      unfolding g by auto
    then show ?thesis using that(2) new old by auto
  qed
  then show ?thesis
    by (auto simp: weighted_def list_all_iff)
qed

text \<open>A set that holds \<open>a\<close> and is closed under the relation holds all that \<open>a\<close> reaches.\<close>

lemma closed_set_no_path:
  assumes "a \<in> S" and "\<And>u v. u \<in> S \<Longrightarrow> (u, v) \<in> r \<Longrightarrow> v \<in> S" and "b \<notin> S"
  shows "(a, b) \<notin> r\<^sup>*"
proof
  assume "(a, b) \<in> r\<^sup>*"
  then have "b \<in> S"
    using assms(1,2) by (induction rule: rtrancl_induct) auto
  then show False using assms(3) by simp
qed

subsection \<open>The planner when the start is cut off from the goal\<close>

text \<open>
  \<open>no_path gr a b\<close>: the graph is undirected and weighted, \<open>a\<close> and \<open>b\<close> are nodes and
  no path leads from \<open>a\<close> to \<open>b\<close>. \<open>goal_side\<close> is what the goal reaches. \<open>inert\<close>: the
  planner stands on a graph of the shape of \<open>gr\<close>, its queues hold states of the goal
  side only, and off the goal side \<open>g\<close> and \<open>rhs\<close> are infinite.
\<close>

definition no_path :: "'n graph \<Rightarrow> 'n \<Rightarrow> 'n \<Rightarrow> bool" where
  "no_path gr a b =
     (undirected gr \<and> weighted gr \<and> a \<in> set (nodes gr) \<and> b \<in> set (nodes gr)
      \<and> (a, b) \<notin> (edge_rel gr)\<^sup>*)"

definition goal_side :: "'n graph \<Rightarrow> 'n \<Rightarrow> 'n set" where
  "goal_side gr b = {s. (b, s) \<in> (edge_rel gr)\<^sup>*}"

definition inert :: "'n graph \<Rightarrow> 'n \<Rightarrow> 'n \<Rightarrow> 'n planner \<Rightarrow> bool" where
  "inert gr a b P =
     (shape (G P) = shape gr \<and> weighted (G P) \<and> s_start P = a \<and> s_goal P = b
      \<and> queues_inv P
      \<and> (\<forall>s. dict_mem (OPEN P) s \<longrightarrow> s \<in> goal_side gr b)
      \<and> (\<forall>s. dict_mem (INCONS P) s \<longrightarrow> s \<in> goal_side gr b)
      \<and> (\<forall>s. s \<notin> goal_side gr b \<longrightarrow> g P s = PInf \<and> rhs P s = PInf))"

text \<open>
  The work left in a pass: a closed state counts 0, any other state 1, plus 1 while its
  \<open>g\<close> is finite, plus 1 while it is open and consistent.
\<close>

definition phi :: "'n planner \<Rightarrow> 'n \<Rightarrow> nat" where
  "phi P s =
     (if s \<in> CLOSED P then 0
      else 1 + (if g P s \<noteq> PInf then 1 else 0)
             + (if dict_mem (OPEN P) s \<and> g P s = rhs P s then 1 else 0))"

definition work :: "'n graph \<Rightarrow> 'n planner \<Rightarrow> nat" where
  "work gr P = sum (phi P) (set (nodes gr))"

lemma goal_side_goal: "b \<in> goal_side gr b"
  by (simp add: goal_side_def)

lemma goal_side_step:
  "s \<in> goal_side gr b \<Longrightarrow> v \<in> set (neighbours_of gr s) \<Longrightarrow> v \<in> goal_side gr b"
proof -
  assume "s \<in> goal_side gr b" and "v \<in> set (neighbours_of gr s)"
  then have "(b, s) \<in> (edge_rel gr)\<^sup>*" and "(s, v) \<in> edge_rel gr"
    by (simp_all add: goal_side_def edge_rel_def)
  then have "(b, v) \<in> (edge_rel gr)\<^sup>*" by (rule rtrancl_into_rtrancl)
  then show ?thesis by (simp add: goal_side_def)
qed

lemma goal_side_back:
  assumes "undirected gr" and "s \<notin> goal_side gr b" and "v \<in> set (neighbours_of gr s)"
  shows "v \<notin> goal_side gr b"
proof
  assume "v \<in> goal_side gr b"
  moreover have "s \<in> set (neighbours_of gr v)"
    using assms(1,3) by (rule undirected_sym)
  ultimately have "s \<in> goal_side gr b" by (rule goal_side_step)
  then show False using assms(2) by simp
qed

lemma goal_side_node:
  assumes "undirected gr" and "b \<in> set (nodes gr)" and "s \<in> goal_side gr b"
  shows "map_of gr s \<noteq> None"
proof -
  have "(b, s) \<in> (edge_rel gr)\<^sup>*" using assms(3) by (simp add: goal_side_def)
  then show ?thesis
  proof (cases rule: rtranclE)
    case base
    then show ?thesis using assms(2) by (simp add: node_iff)
  next
    case (step u)
    then have "s \<in> set (neighbours_of gr u)" by (simp add: edge_rel_def)
    then show ?thesis using assms(1) neighbour_is_node by fastforce
  qed
qed

lemma no_path_start:
  assumes "no_path gr a b"
  shows "a \<notin> goal_side gr b"
proof
  assume "a \<in> goal_side gr b"
  then have ba: "(b, a) \<in> (edge_rel gr)\<^sup>*" by (simp add: goal_side_def)
  have "sym ((edge_rel gr)\<^sup>*)"
    using assms by (simp add: no_path_def undirected_sym_rel sym_rtrancl)
  then have "(a, b) \<in> (edge_rel gr)\<^sup>*" using ba by (simp add: sym_def)
  then show False using assms by (simp add: no_path_def)
qed

lemma rhs_scan_ok:
  assumes "\<And>x. x \<in> set xs \<Longrightarrow> \<exists>c. cost (G P) s x = Inr c"
  shows "\<exists>P'. rhs_scan P s xs = Ok P'"
  using assms
proof (induction xs arbitrary: P)
  case Nil
  show ?case by simp
next
  case (Cons x xs)
  obtain c where c: "cost (G P) s x = Inr c"
    using Cons.prems [of x] by auto
  let ?P1 = "P\<lparr>rhs := (rhs P)(s := min (rhs P s) (g P x + c))\<rparr>"
  have "\<exists>P'. rhs_scan ?P1 s xs = Ok P'"
  proof (rule Cons.IH)
    fix y
    assume "y \<in> set xs"
    then show "\<exists>c. cost (G ?P1) s y = Inr c"
      using Cons.prems [of y] by simp
  qed
  then show ?case using c by simp
qed

lemma rhs_scan_inf:
  assumes "rhs P s = PInf" and "\<And>x. x \<in> set xs \<Longrightarrow> g P x = PInf"
  shows "rhs (the_planner (rhs_scan P s xs)) s = PInf"
  using assms
proof (induction xs arbitrary: P)
  case Nil
  then show ?case by simp
next
  case (Cons x xs)
  show ?case
  proof (cases "cost (G P) s x")
    case (Inl e)
    then show ?thesis using Cons.prems(1) by simp
  next
    case (Inr c)
    let ?P1 = "P\<lparr>rhs := (rhs P)(s := min (rhs P s) (g P x + c))\<rparr>"
    have gx: "g P x = PInf" using Cons.prems(2) [of x] by simp
    have "rhs (the_planner (rhs_scan ?P1 s xs)) s = PInf"
    proof (rule Cons.IH)
      show "rhs ?P1 s = PInf" using Cons.prems(1) gx by simp
      fix y
      assume "y \<in> set xs"
      then show "g ?P1 y = PInf" using Cons.prems(2) [of y] by simp
    qed
    then show ?thesis using Inr by simp
  qed
qed

lemma requeue_fields:
  "g (requeue P t) = g P" "rhs (requeue P t) = rhs P" "CLOSED (requeue P t) = CLOSED P"
  "G (requeue P t) = G P" "s_start (requeue P t) = s_start P"
  "s_goal (requeue P t) = s_goal P"
  by (simp_all add: requeue_unfold)

lemma requeue_open_mem:
  "dict_mem (OPEN (requeue P t)) x
     = (if x = t then g P t \<noteq> rhs P t \<and> t \<notin> CLOSED P else dict_mem (OPEN P) x)"
  by (simp add: requeue_unfold dict_mem_update dict_mem_delete)

lemma requeue_incons_mem:
  "dict_mem (INCONS (requeue P t)) x
     = (dict_mem (INCONS P) x \<or> (x = t \<and> g P t \<noteq> rhs P t \<and> t \<in> CLOSED P))"
  by (auto simp: requeue_unfold dict_mem_update)

text \<open>
  On a weighted graph \<open>update_state\<close> of a node returns: it is \<open>requeue\<close> of a planner
  that differs from the old one in \<open>rhs\<close> of that node only.
\<close>

lemma update_state_returns:
  assumes w: "weighted (G P)" and n: "map_of (G P) t \<noteq> None"
  shows "\<exists>P1. update_state P t = Ok (requeue P1 t)
           \<and> OPEN P1 = OPEN P \<and> INCONS P1 = INCONS P \<and> g P1 = g P
           \<and> CLOSED P1 = CLOSED P \<and> G P1 = G P \<and> s_start P1 = s_start P
           \<and> s_goal P1 = s_goal P
           \<and> (\<forall>x. x \<noteq> t \<longrightarrow> rhs P1 x = rhs P x)
           \<and> (t \<noteq> s_goal P \<longrightarrow> (\<forall>x \<in> set (neighbours_of (G P) t). g P x = PInf)
                \<longrightarrow> rhs P1 t = PInf)
           \<and> (t = s_goal P \<longrightarrow> rhs P1 t = rhs P t)"
proof (cases "t = s_goal P")
  case True
  then have "update_state P t = Ok (requeue P t)" by (simp add: update_state_def)
  then show ?thesis using True by blast
next
  case False
  let ?P0 = "P\<lparr>rhs := (rhs P)(t := PInf)\<rparr>"
  let ?nb = "neighbours_of (G P) t"
  have nb: "get_neighbor (G ?P0) t = Inr ?nb"
    using n by (simp add: get_neighbor_node)
  have "\<exists>P'. rhs_scan ?P0 t ?nb = Ok P'"
  proof (rule rhs_scan_ok)
    fix x
    assume "x \<in> set ?nb"
    then show "\<exists>c. cost (G ?P0) t x = Inr c"
      using w weighted_cost [of "G P" x t] by simp
  qed
  then obtain P1 where p1: "rhs_scan ?P0 t ?nb = Ok P1" by blast
  then have tp: "the_planner (rhs_scan ?P0 t ?nb) = P1" by simp
  have u: "update_state P t = Ok (requeue P1 t)"
    using False nb p1 by (simp add: update_state_def Let_def)
  have q: "OPEN P1 = OPEN P \<and> INCONS P1 = INCONS P \<and> g P1 = g P
           \<and> CLOSED P1 = CLOSED P \<and> G P1 = G P"
    using rhs_scan_queues [of ?P0 t ?nb] unfolding tp by simp
  have f: "s_start P1 = s_start P \<and> s_goal P1 = s_goal P"
    using rhs_scan_frame [of ?P0 t ?nb] unfolding tp by (simp add: frame_update_state_def)
  have r: "rhs P1 x = rhs P x" if "x \<noteq> t" for x
    using rhs_scan_rhs_other [OF that, of ?P0 ?nb] that unfolding tp by simp
  have i: "rhs P1 t = PInf" if "\<forall>x \<in> set ?nb. g P x = PInf"
  proof -
    have "rhs (the_planner (rhs_scan ?P0 t ?nb)) t = PInf"
    proof (rule rhs_scan_inf)
      show "rhs ?P0 t = PInf" by simp
      fix x
      assume "x \<in> set ?nb"
      then show "g ?P0 x = PInf" using that by simp
    qed
    then show ?thesis unfolding tp .
  qed
  show ?thesis
    using u q f r i False by blast
qed

lemma inert_parts:
  assumes "inert gr a b P"
  shows "shape (G P) = shape gr" "weighted (G P)" "s_start P = a" "s_goal P = b"
    "queues_inv P"
    "\<And>s. dict_mem (OPEN P) s \<Longrightarrow> s \<in> goal_side gr b"
    "\<And>s. dict_mem (INCONS P) s \<Longrightarrow> s \<in> goal_side gr b"
    "\<And>s. s \<notin> goal_side gr b \<Longrightarrow> g P s = PInf"
    "\<And>s. s \<notin> goal_side gr b \<Longrightarrow> rhs P s = PInf"
  using assms unfolding inert_def by simp_all

lemma inertI:
  assumes "shape (G P) = shape gr" "weighted (G P)" "s_start P = a" "s_goal P = b"
    "queues_inv P"
    "\<And>s. dict_mem (OPEN P) s \<Longrightarrow> s \<in> goal_side gr b"
    "\<And>s. dict_mem (INCONS P) s \<Longrightarrow> s \<in> goal_side gr b"
    "\<And>s. s \<notin> goal_side gr b \<Longrightarrow> g P s = PInf"
    "\<And>s. s \<notin> goal_side gr b \<Longrightarrow> rhs P s = PInf"
  shows "inert gr a b P"
  using assms unfolding inert_def by simp

lemma update_state_inert:
  assumes np: "no_path gr a b" and inv: "inert gr a b P" and node: "map_of gr t \<noteq> None"
  shows "\<exists>P'. update_state P t = Ok P' \<and> inert gr a b P' \<and> g P' = g P
           \<and> CLOSED P' = CLOSED P \<and> (\<forall>x. phi P' x \<le> phi P x)"
proof -
  note ip = inert_parts [OF inv]
  have und: "undirected gr" using np by (simp add: no_path_def)
  have n: "map_of (G P) t \<noteq> None"
    using node shape_node [OF ip(1), of t] by simp
  obtain P1 where u: "update_state P t = Ok (requeue P1 t)"
    and o1: "OPEN P1 = OPEN P" and i1: "INCONS P1 = INCONS P" and g1: "g P1 = g P"
    and c1: "CLOSED P1 = CLOSED P" and G1: "G P1 = G P" and s1: "s_start P1 = s_start P"
    and t1: "s_goal P1 = s_goal P"
    and r1: "\<forall>x. x \<noteq> t \<longrightarrow> rhs P1 x = rhs P x"
    and inf1: "t \<noteq> s_goal P \<longrightarrow> (\<forall>x \<in> set (neighbours_of (G P) t). g P x = PInf)
                 \<longrightarrow> rhs P1 t = PInf"
    and goal1: "t = s_goal P \<longrightarrow> rhs P1 t = rhs P t"
    using update_state_returns [OF ip(2) n] by blast
  let ?P' = "requeue P1 t"
  have off: "g P t = PInf \<and> rhs P1 t = PInf" if "t \<notin> goal_side gr b"
  proof -
    have tg: "t \<noteq> s_goal P" using that ip(4) goal_side_goal [of b gr] by auto
    have "g P x = PInf" if "x \<in> set (neighbours_of (G P) t)" for x
    proof -
      have "x \<in> set (neighbours_of gr t)"
        using that shape_neighbours [OF ip(1), of t] by simp
      then have "x \<notin> goal_side gr b"
        using und \<open>t \<notin> goal_side gr b\<close> goal_side_back by fastforce
      then show ?thesis by (rule ip(8))
    qed
    then have "rhs P1 t = PInf" using inf1 tg by simp
    then show ?thesis using ip(8) [OF that] by simp
  qed
  have om: "dict_mem (OPEN ?P') x
              = (if x = t then g P t \<noteq> rhs P1 t \<and> t \<notin> CLOSED P else dict_mem (OPEN P) x)"
    for x
    by (simp add: requeue_open_mem g1 c1 o1)
  have im: "dict_mem (INCONS ?P') x
              = (dict_mem (INCONS P) x \<or> (x = t \<and> g P t \<noteq> rhs P1 t \<and> t \<in> CLOSED P))"
    for x
    by (simp add: requeue_incons_mem g1 c1 i1)
  have gP: "g ?P' = g P" by (simp add: requeue_fields g1)
  have cP: "CLOSED ?P' = CLOSED P" by (simp add: requeue_fields c1)
  have rP: "rhs ?P' = rhs P1" by (simp add: requeue_fields)
  have inv': "inert gr a b ?P'"
  proof (rule inertI)
    show "shape (G ?P') = shape gr" using ip(1) by (simp add: requeue_fields G1)
    show "weighted (G ?P')" using ip(2) by (simp add: requeue_fields G1)
    show "s_start ?P' = a" using ip(3) by (simp add: requeue_fields s1)
    show "s_goal ?P' = b" using ip(4) by (simp add: requeue_fields t1)
    show "queues_inv ?P'"
      using ip(5) unfolding queues_inv_def om im cP by auto
    show "s \<in> goal_side gr b" if "dict_mem (OPEN ?P') s" for s
    proof (cases "s = t")
      case True
      then have "g P t \<noteq> rhs P1 t" using that om [of s] by simp
      then show ?thesis using off True by (cases "t \<in> goal_side gr b") simp_all
    next
      case False
      then have "dict_mem (OPEN P) s" using that om [of s] by simp
      then show ?thesis by (rule ip(6))
    qed
    show "s \<in> goal_side gr b" if "dict_mem (INCONS ?P') s" for s
    proof (cases "dict_mem (INCONS P) s")
      case True
      then show ?thesis by (rule ip(7))
    next
      case False
      then have "s = t \<and> g P t \<noteq> rhs P1 t" using that im [of s] by simp
      then show ?thesis using off by (cases "t \<in> goal_side gr b") simp_all
    qed
    show "g ?P' s = PInf" if "s \<notin> goal_side gr b" for s
      using ip(8) [OF that] by (simp add: gP)
    show "rhs ?P' s = PInf" if "s \<notin> goal_side gr b" for s
    proof (cases "s = t")
      case True
      then show ?thesis using off that by (simp add: rP)
    next
      case False
      then show ?thesis using r1 ip(9) [OF that] by (simp add: rP)
    qed
  qed
  have ph: "phi ?P' x \<le> phi P x" for x
  proof (cases "x = t")
    case True
    have third: "(if dict_mem (OPEN ?P') t \<and> g ?P' t = rhs ?P' t then 1 else 0) = (0::nat)"
    proof (cases "dict_mem (OPEN ?P') t")
      case False
      then show ?thesis by simp
    next
      case m: True
      then have "g P t \<noteq> rhs P1 t" using om [of t] by simp
      then have "g ?P' t \<noteq> rhs ?P' t" by (simp add: gP rP)
      then show ?thesis by simp
    qed
    show ?thesis
      unfolding True phi_def third by (simp add: gP cP)
  next
    case False
    then have "dict_mem (OPEN ?P') x = dict_mem (OPEN P) x" using om [of x] by simp
    moreover have "rhs ?P' x = rhs P x" using r1 False by (simp add: rP)
    ultimately show ?thesis by (simp add: phi_def gP cP)
  qed
  show ?thesis
    using u inv' gP cP ph by blast
qed

lemma update_states_inert:
  assumes np: "no_path gr a b"
    and "inert gr a b P" and "\<And>t. t \<in> set sns \<Longrightarrow> map_of gr t \<noteq> None"
  shows "\<exists>P'. update_states P sns = Ok P' \<and> inert gr a b P' \<and> g P' = g P
           \<and> CLOSED P' = CLOSED P \<and> (\<forall>x. phi P' x \<le> phi P x)"
  using assms(2,3)
proof (induction sns arbitrary: P)
  case Nil
  then show ?case by simp
next
  case (Cons sn sns)
  have "map_of gr sn \<noteq> None" using Cons.prems(2) [of sn] by simp
  then obtain P1 where u: "update_state P sn = Ok P1" and i1: "inert gr a b P1"
    and g1: "g P1 = g P" and c1: "CLOSED P1 = CLOSED P"
    and p1: "\<forall>x. phi P1 x \<le> phi P x"
    using update_state_inert [OF np Cons.prems(1)] by blast
  have "\<exists>P'. update_states P1 sns = Ok P' \<and> inert gr a b P' \<and> g P' = g P1
           \<and> CLOSED P' = CLOSED P1 \<and> (\<forall>x. phi P' x \<le> phi P1 x)"
  proof (rule Cons.IH [OF i1])
    fix t
    assume "t \<in> set sns"
    then show "map_of gr t \<noteq> None" using Cons.prems(2) [of t] by simp
  qed
  then obtain P' where u': "update_states P1 sns = Ok P'" and i': "inert gr a b P'"
    and g': "g P' = g P1" and c': "CLOSED P' = CLOSED P1"
    and p': "\<forall>x. phi P' x \<le> phi P1 x"
    by blast
  have "\<forall>x. phi P' x \<le> phi P x"
    using p1 p' le_trans by blast
  moreover have "update_states P (sn # sns) = Ok P'" using u u' by simp
  ultimately show ?case using i' g' g1 c' c1 by auto
qed

lemma le_PInf: "(x::cost) \<le> PInf"
  by (cases x) simp_all

lemma not_PInf_less: "\<not> PInf < (x::cost)"
  by (cases x) simp_all

lemma smallest_key_scan_index:
  "fst (smallest_key_scan items mp ms mi) = mi
   \<or> (\<exists>k. fst (smallest_key_scan items mp ms mi) = Some k \<and> k \<in> fst ` set items)"
proof (induction items arbitrary: mp ms mi)
  case Nil
  show ?case by simp
next
  case (Cons p items)
  obtain k v where p: "p = (k, v)" by (cases p) auto
  show ?case
  proof (cases "fst v \<le> mp")
    case False
    then show ?thesis using Cons.IH [of mp ms mi] p by auto
  next
    case True
    show ?thesis
    proof (cases "snd v < ms")
      case s: True
      then show ?thesis using Cons.IH [of "fst v" "snd v" "Some k"] p True by auto
    next
      case s: False
      then show ?thesis using Cons.IH [of "fst v" ms "Some k"] p True by auto
    qed
  qed
qed

lemma smallest_key_nonempty:
  assumes "OPEN P \<noteq> []"
  shows "\<exists>s. fst (smallest_key P) = Some s \<and> dict_mem (OPEN P) s"
proof -
  obtain k v items where o: "OPEN P = (k, v) # items"
    using assms by (cases "OPEN P") auto
  show ?thesis
  proof (cases "snd v < PInf")
    case True
    then have e: "smallest_key P = smallest_key_scan items (fst v) (snd v) (Some k)"
      by (simp add: smallest_key_def o le_PInf)
    show ?thesis
      using smallest_key_scan_index [of items "fst v" "snd v" "Some k"]
      unfolding e dict_mem_def o by auto
  next
    case False
    then have e: "smallest_key P = smallest_key_scan items (fst v) PInf (Some k)"
      by (simp add: smallest_key_def o le_PInf)
    show ?thesis
      using smallest_key_scan_index [of items "fst v" PInf "Some k"]
      unfolding e dict_mem_def o by auto
  qed
qed

lemma loop_done_empty:
  assumes "OPEN P = []" and "rhs P (s_start P) = g P (s_start P)"
  shows "loop_done P"
  using assms by (simp add: loop_done_def smallest_key_def key_lt_def not_PInf_less)

lemma work_less:
  assumes "\<And>x. phi P' x \<le> phi P x" and "phi P' s < phi P s" and "s \<in> set (nodes gr)"
  shows "work gr P' < work gr P"
  unfolding work_def
proof (rule sum_strict_mono_ex1)
  show "finite (set (nodes gr))" by simp
  show "\<forall>x\<in>set (nodes gr). phi P' x \<le> phi P x" using assms(1) by simp
  show "\<exists>x\<in>set (nodes gr). phi P' x < phi P x" using assms(2,3) by blast
qed

text \<open>
  Taking an open state out of \<open>OPEN\<close> and writing its \<open>g\<close> (lines 167 to 172 and 176)
  keeps the planner inert and lowers the work of that state.
\<close>

lemma pop_inert:
  assumes np: "no_path gr a b" and inv: "inert gr a b P" and m: "dict_mem (OPEN P) s"
    and p2: "P2 = P\<lparr>OPEN := AList.delete s (OPEN P), visited := vi, g := (g P)(s := c),
                    CLOSED := cl\<rparr>"
    and cl: "cl = CLOSED P \<or> cl = insert s (CLOSED P)"
  shows "inert gr a b P2"
proof -
  note ip = inert_parts [OF inv]
  have sg: "s \<in> goal_side gr b" using m by (rule ip(6))
  have sc: "s \<notin> CLOSED P" using ip(5) m by (simp add: queues_inv_def)
  show ?thesis
  proof (rule inertI)
    show "shape (G P2) = shape gr" using ip(1) by (simp add: p2)
    show "weighted (G P2)" using ip(2) by (simp add: p2)
    show "s_start P2 = a" using ip(3) by (simp add: p2)
    show "s_goal P2 = b" using ip(4) by (simp add: p2)
    show "queues_inv P2"
      using ip(5) cl unfolding queues_inv_def p2 by (auto simp: dict_mem_delete)
    show "x \<in> goal_side gr b" if "dict_mem (OPEN P2) x" for x
    proof -
      have "dict_mem (OPEN P) x" using that by (simp add: p2 dict_mem_delete)
      then show ?thesis by (rule ip(6))
    qed
    show "x \<in> goal_side gr b" if "dict_mem (INCONS P2) x" for x
    proof -
      have "dict_mem (INCONS P) x" using that by (simp add: p2)
      then show ?thesis by (rule ip(7))
    qed
    show "g P2 x = PInf" if "x \<notin> goal_side gr b" for x
    proof -
      have "x \<noteq> s" using that sg by auto
      then show ?thesis using ip(8) [OF that] by (simp add: p2)
    qed
    show "rhs P2 x = PInf" if "x \<notin> goal_side gr b" for x
      using ip(9) [OF that] by (simp add: p2)
  qed
qed

lemma pop_phi_other:
  assumes p2: "P2 = P\<lparr>OPEN := AList.delete s (OPEN P), visited := vi, g := (g P)(s := c),
                    CLOSED := cl\<rparr>"
    and cl: "cl = CLOSED P \<or> cl = insert s (CLOSED P)" and "x \<noteq> s"
  shows "phi P2 x = phi P x"
  using cl assms(3) unfolding p2 phi_def by (auto simp: dict_mem_delete)

lemma expand_inert:
  assumes np: "no_path gr a b" and inv: "inert gr a b P" and m: "dict_mem (OPEN P) s"
  shows "\<exists>P'. expand P (Some s) = Ok P' \<and> inert gr a b P' \<and> work gr P' < work gr P"
proof -
  note ip = inert_parts [OF inv]
  have und: "undirected gr" and bn: "b \<in> set (nodes gr)"
    using np by (simp_all add: no_path_def)
  have sg: "s \<in> goal_side gr b" using m by (rule ip(6))
  have sn: "map_of gr s \<noteq> None" using und bn sg by (rule goal_side_node)
  then have snodes: "s \<in> set (nodes gr)" by (simp add: node_iff)
  have sN: "map_of (G P) s \<noteq> None" using sn shape_node [OF ip(1), of s] by simp
  have sc: "s \<notin> CLOSED P" using ip(5) m by (simp add: queues_inv_def)
  let ?nb = "neighbours_of (G P) s"
  have nbn: "map_of gr t \<noteq> None" if "t \<in> set ?nb" for t
  proof -
    have "t \<in> set (neighbours_of gr s)"
      using that shape_neighbours [OF ip(1), of s] by simp
    then show ?thesis using und neighbour_is_node by fastforce
  qed
  let ?P1 = "P\<lparr>OPEN := AList.delete s (OPEN P), visited := insert s (visited P)\<rparr>"
  show ?thesis
  proof (cases "rhs P s < g P s")
    case True
    let ?Pa = "?P1\<lparr>g := (g ?P1)(s := rhs ?P1 s), CLOSED := insert s (CLOSED ?P1)\<rparr>"
    have pa: "?Pa = P\<lparr>OPEN := AList.delete s (OPEN P), visited := insert s (visited P),
                       g := (g P)(s := rhs P s), CLOSED := insert s (CLOSED P)\<rparr>"
      by simp
    have ia: "inert gr a b ?Pa"
      by (rule pop_inert [OF np inv m pa]) simp
    have oth: "phi ?Pa x = phi P x" if "x \<noteq> s" for x
      by (rule pop_phi_other [OF pa _ that]) simp
    have ps: "phi ?Pa s < phi P s"
      using sc by (simp add: phi_def)
    obtain P' where u: "update_states ?Pa ?nb = Ok P'" and i': "inert gr a b P'"
      and ph: "\<forall>x. phi P' x \<le> phi ?Pa x"
      using update_states_inert [OF np ia, of ?nb] nbn by blast
    have nb: "get_neighbor (G ?Pa) s = Inr ?nb"
      using sN by (simp add: get_neighbor_node)
    have e: "expand P (Some s) = Ok P'"
      using m True nb u by (simp add: expand_def Let_def)
    have le: "phi P' x \<le> phi P x" for x
    proof (cases "x = s")
      case True
      have "phi P' s \<le> phi ?Pa s" using ph by blast
      then show ?thesis using ps True by simp
    next
      case False
      have "phi P' x \<le> phi ?Pa x" using ph by blast
      then show ?thesis using oth [OF False] by simp
    qed
    have "phi P' s \<le> phi ?Pa s" using ph by blast
    then have lt: "phi P' s < phi P s" using ps by simp
    have "work gr P' < work gr P"
      using le lt snodes by (rule work_less)
    then show ?thesis using e i' by blast
  next
    case False
    let ?Pb = "?P1\<lparr>g := (g ?P1)(s := PInf)\<rparr>"
    have pb: "?Pb = P\<lparr>OPEN := AList.delete s (OPEN P), visited := insert s (visited P),
                       g := (g P)(s := PInf), CLOSED := CLOSED P\<rparr>"
      by simp
    have ib: "inert gr a b ?Pb"
      by (rule pop_inert [OF np inv m pb]) simp
    have oth: "phi ?Pb x = phi P x" if "x \<noteq> s" for x
      by (rule pop_phi_other [OF pb _ that]) simp
    have two: "2 \<le> phi P s"
    proof (cases "g P s = PInf")
      case fin: False
      then show ?thesis using sc by (simp add: phi_def)
    next
      case inf: True
      then have "rhs P s = PInf"
        using False le_PInf [of "rhs P s"] by simp
      then show ?thesis using sc inf m by (simp add: phi_def)
    qed
    have one: "phi ?Pb s = 1"
      using sc by (simp add: phi_def dict_mem_delete)
    obtain P3 where u3: "update_states ?Pb ?nb = Ok P3" and i3: "inert gr a b P3"
      and ph3: "\<forall>x. phi P3 x \<le> phi ?Pb x"
      using update_states_inert [OF np ib, of ?nb] nbn by blast
    obtain P' where u: "update_state P3 s = Ok P'" and i': "inert gr a b P'"
      and ph: "\<forall>x. phi P' x \<le> phi P3 x"
      using update_state_inert [OF np i3 sn] by blast
    have nb: "get_neighbor (G ?Pb) s = Inr ?nb"
      using sN by (simp add: get_neighbor_node)
    have e: "expand P (Some s) = Ok P'"
      using m False nb u3 u by (simp add: expand_def Let_def)
    have leb: "phi P' x \<le> phi ?Pb x" for x
    proof -
      have "phi P' x \<le> phi P3 x" using ph by blast
      moreover have "phi P3 x \<le> phi ?Pb x" using ph3 by blast
      ultimately show ?thesis by (rule le_trans)
    qed
    have lt: "phi P' s < phi P s"
      using leb [of s] one two by simp
    have le: "phi P' x \<le> phi P x" for x
    proof (cases "x = s")
      case True
      then show ?thesis using lt by simp
    next
      case False
      then show ?thesis using leb [of x] oth [OF False] by simp
    qed
    have "work gr P' < work gr P"
      using le lt snodes by (rule work_less)
    then show ?thesis using e i' by blast
  qed
qed

lemma expand_inert_any:
  assumes np: "no_path gr a b" and inv: "inert gr a b P"
  shows "inert gr a b (the_planner (expand P so))"
proof (cases so)
  case None
  then show ?thesis using inv by (simp add: expand_def)
next
  case (Some s)
  show ?thesis
  proof (cases "dict_mem (OPEN P) s")
    case False
    then show ?thesis using inv Some by (simp add: expand_def)
  next
    case True
    then obtain P' where "expand P (Some s) = Ok P'" and "inert gr a b P'"
      using expand_inert [OF np inv] by blast
    then show ?thesis using Some by simp
  qed
qed

lemma main_loop_terminates:
  assumes np: "no_path gr a b" and "inert gr a b P" and "work gr P < n"
  shows "\<exists>P'. main_loop n P = Some (Ok P') \<and> inert gr a b P'"
  using assms(2,3)
proof (induction n arbitrary: P)
  case 0
  then show ?case by simp
next
  case (Suc n)
  note ip = inert_parts [OF Suc.prems(1)]
  show ?case
  proof (cases "loop_done P")
    case True
    then show ?thesis using Suc.prems(1) by simp
  next
    case False
    have st: "rhs P (s_start P) = g P (s_start P)"
      using ip(3) ip(8) [OF no_path_start [OF np]] ip(9) [OF no_path_start [OF np]] by simp
    have "OPEN P \<noteq> []"
      using False st loop_done_empty by blast
    then obtain s where s: "fst (smallest_key P) = Some s" and m: "dict_mem (OPEN P) s"
      using smallest_key_nonempty by blast
    obtain P1 where e: "expand P (Some s) = Ok P1" and i1: "inert gr a b P1"
      and w: "work gr P1 < work gr P"
      using expand_inert [OF np Suc.prems(1) m] by blast
    have "work gr P1 < n" using w Suc.prems(2) by simp
    then have "\<exists>P'. main_loop n P1 = Some (Ok P') \<and> inert gr a b P'"
      by (rule Suc.IH [OF i1])
    then show ?thesis using False s e by simp
  qed
qed

lemma dict_mem_map_of: "dict_mem d s = (map_of d s \<noteq> None)"
  by (simp add: dict_mem_def map_of_eq_None_iff)

lemma rekey_dict_mem:
  "dict_mem (OPEN (rekey P xs)) s = (dict_mem (OPEN P) s \<or> s \<in> set xs)"
  by (simp add: dict_mem_map_of rekey_map_of)

lemma reprime_fields:
  "G (reprime P) = G P" "g (reprime P) = g P" "rhs (reprime P) = rhs P"
  "s_start (reprime P) = s_start P" "s_goal (reprime P) = s_goal P"
  by (simp_all add: reprime_def Let_def rekey_fields)

lemma reprime_open_mem:
  "dict_mem (OPEN (reprime P)) s = (dict_mem (OPEN P) s \<or> dict_mem (INCONS P) s)"
proof -
  let ?P2 = "(rekey P (map fst (INCONS P)))\<lparr>INCONS := []\<rparr>"
  have i: "(s \<in> set (map fst (INCONS P))) = dict_mem (INCONS P) s"
    by (simp add: dict_mem_def)
  have "OPEN ?P2 = OPEN (rekey P (map fst (INCONS P)))" by simp
  then have o2: "dict_mem (OPEN ?P2) s = (dict_mem (OPEN P) s \<or> dict_mem (INCONS P) s)"
    by (simp only: rekey_dict_mem i)
  have "dict_mem (OPEN (reprime P)) s
          = (dict_mem (OPEN ?P2) s \<or> s \<in> set (map fst (OPEN ?P2)))"
    by (simp add: reprime_def Let_def rekey_dict_mem)
  also have "\<dots> = dict_mem (OPEN ?P2) s"
    by (auto simp: dict_mem_def)
  finally show ?thesis using o2 by simp
qed

lemma reprime_inert:
  assumes "inert gr a b P"
  shows "inert gr a b (reprime P)"
proof -
  note ip = inert_parts [OF assms]
  show ?thesis
  proof (rule inertI)
    show "shape (G (reprime P)) = shape gr" using ip(1) by (simp add: reprime_fields)
    show "weighted (G (reprime P))" using ip(2) by (simp add: reprime_fields)
    show "s_start (reprime P) = a" using ip(3) by (simp add: reprime_fields)
    show "s_goal (reprime P) = b" using ip(4) by (simp add: reprime_fields)
    show "queues_inv (reprime P)" by (rule reprime_queues_inv)
    show "s \<in> goal_side gr b" if "dict_mem (OPEN (reprime P)) s" for s
    proof (cases "dict_mem (OPEN P) s")
      case True
      then show ?thesis by (rule ip(6))
    next
      case False
      then have "dict_mem (INCONS P) s" using that by (simp add: reprime_open_mem)
      then show ?thesis by (rule ip(7))
    qed
    show "s \<in> goal_side gr b" if "dict_mem (INCONS (reprime P)) s" for s
      using that by (simp add: reprime_queues dict_mem_Nil)
    show "g (reprime P) s = PInf" if "s \<notin> goal_side gr b" for s
      using ip(8) [OF that] by (simp add: reprime_fields)
    show "rhs (reprime P) s = PInf" if "s \<notin> goal_side gr b" for s
      using ip(9) [OF that] by (simp add: reprime_fields)
  qed
qed

lemma inert_epsilon:
  "inert gr a b P \<Longrightarrow> inert gr a b (P\<lparr>epsilon := eps\<rparr>)"
  "inert gr a b P \<Longrightarrow> inert gr a b (P\<lparr>epsilon := eps, initialize := False\<rparr>)"
  by (simp_all add: inert_def queues_inv_def)

lemma inert_G_update:
  assumes "inert gr a b P" and "shape gr' = shape (G P)" and "weighted gr'"
  shows "inert gr a b (P\<lparr>G := gr'\<rparr>)"
  using assms by (simp add: inert_def queues_inv_def)

text \<open>On an inert planner the loop never raises, and it ends.\<close>

lemma main_loop_inert:
  assumes np: "no_path gr a b" and "inert gr a b P" and "main_loop fuel P = Some r"
  shows "\<exists>P'. r = Ok P' \<and> inert gr a b P'"
  using assms(2,3)
proof (induction fuel arbitrary: P)
  case 0
  then show ?case by simp
next
  case (Suc n)
  note ip = inert_parts [OF Suc.prems(1)]
  show ?case
  proof (cases "loop_done P")
    case True
    then show ?thesis using Suc.prems by auto
  next
    case False
    have st: "rhs P (s_start P) = g P (s_start P)"
      using ip(3) ip(8) [OF no_path_start [OF np]] ip(9) [OF no_path_start [OF np]] by simp
    have "OPEN P \<noteq> []"
      using False st loop_done_empty by blast
    then obtain s where s: "fst (smallest_key P) = Some s" and m: "dict_mem (OPEN P) s"
      using smallest_key_nonempty by blast
    obtain P1 where e: "expand P (Some s) = Ok P1" and i1: "inert gr a b P1"
      using expand_inert [OF np Suc.prems(1) m] by blast
    have "main_loop n P1 = Some r" using Suc.prems(2) False s e by simp
    then show ?thesis by (rule Suc.IH [OF i1])
  qed
qed

lemma compute_or_improve_path_inert:
  assumes np: "no_path gr a b" and inv: "inert gr a b P"
  shows "(\<exists>fuel P'. compute_or_improve_path fuel eps P = Some (Ok P'))
         \<and> (\<forall>fuel r. compute_or_improve_path fuel eps P = Some r
               \<longrightarrow> (\<exists>P'. r = Ok P' \<and> inert gr a b P'))"
proof -
  let ?Q = "if initialize P then P\<lparr>epsilon := eps, initialize := False\<rparr>
            else reprime (P\<lparr>epsilon := eps\<rparr>)"
  have c: "compute_or_improve_path fuel eps P = main_loop fuel ?Q" for fuel
    by (simp add: compute_or_improve_path_def)
  have iq: "inert gr a b ?Q"
    using inv by (simp add: inert_epsilon reprime_inert)
  have "work gr ?Q < Suc (work gr ?Q)" by simp
  then have "\<exists>P'. main_loop (Suc (work gr ?Q)) ?Q = Some (Ok P') \<and> inert gr a b P'"
    by (rule main_loop_terminates [OF np iq])
  then have t: "\<exists>fuel P'. compute_or_improve_path fuel eps P = Some (Ok P')"
    unfolding c by blast
  have "\<exists>P'. r = Ok P' \<and> inert gr a b P'"
    if "compute_or_improve_path fuel eps P = Some r" for fuel r
  proof -
    have "main_loop fuel ?Q = Some r" using that unfolding c .
    then show ?thesis by (rule main_loop_inert [OF np iq])
  qed
  then show ?thesis using t by blast
qed

lemma set_weight_node: "set_weight gr x y w = Inr gr' \<Longrightarrow> map_of gr x \<noteq> None"
  by (cases "map_of gr x") (auto simp: set_weight_def)

lemma apply_change_inert:
  assumes np: "no_path gr a b" and inv: "inert gr a b P"
  shows "inert gr a b (the_planner (apply_change P change))"
proof -
  note ip = inert_parts [OF inv]
  obtain x y w where ch: "change = (x, y, w)" by (cases change) auto
  show ?thesis
  proof (cases "set_weight (G P) x y w")
    case (Inl e)
    then show ?thesis using ch inv by (simp add: apply_change_def)
  next
    case (Inr gr1)
    let ?P1 = "P\<lparr>G := gr1\<rparr>"
    have s1: "shape gr1 = shape (G P)" using Inr by (rule set_weight_shape)
    have w1: "weighted gr1" using Inr ip(2) by (rule set_weight_weighted)
    have i1: "inert gr a b ?P1" using inv s1 w1 by (rule inert_G_update)
    have xn: "map_of gr x \<noteq> None"
      using set_weight_node [OF Inr] shape_node [OF ip(1), of x] by simp
    show ?thesis
    proof (cases "set_weight gr1 y x w")
      case (Inl e)
      then show ?thesis using ch Inr i1 by (simp add: apply_change_def)
    next
      case gr2: (Inr gr2)
      let ?P2 = "?P1\<lparr>G := gr2\<rparr>"
      have s2: "shape gr2 = shape gr1" using gr2 by (rule set_weight_shape)
      have w2: "weighted gr2" using gr2 w1 by (rule set_weight_weighted)
      have "inert gr a b (?P1\<lparr>G := gr2\<rparr>)"
        by (rule inert_G_update [OF i1]) (simp_all add: s2 w2)
      then have i2: "inert gr a b ?P2" by simp
      have "map_of gr1 y \<noteq> None" using gr2 by (rule set_weight_node)
      then have "map_of (G P) y \<noteq> None" using shape_node [OF s1, of y] by simp
      then have yn: "map_of gr y \<noteq> None" using shape_node [OF ip(1), of y] by simp
      obtain P3 where u3: "update_state ?P2 x = Ok P3" and i3: "inert gr a b P3"
        using update_state_inert [OF np i2 xn] by blast
      obtain P4 where u4: "update_state P3 y = Ok P4" and i4: "inert gr a b P4"
        using update_state_inert [OF np i3 yn] by blast
      show ?thesis using ch Inr gr2 u3 u4 i4 by (simp add: apply_change_def)
    qed
  qed
qed

lemma apply_changes_inert:
  assumes np: "no_path gr a b" and "inert gr a b P"
  shows "inert gr a b (the_planner (apply_changes P changes))"
  using assms(2)
proof (induction changes arbitrary: P)
  case Nil
  then show ?case by simp
next
  case (Cons change changes)
  have i1: "inert gr a b (the_planner (apply_change P change))"
    using np Cons.prems by (rule apply_change_inert)
  show ?case
  proof (cases "apply_change P change")
    case (Ok P')
    then have "inert gr a b (the_planner (apply_changes P' changes))"
      using i1 Cons.IH by simp
    then show ?thesis using Ok by simp
  next
    case (Raise e P')
    then show ?thesis using i1 by simp
  qed
qed

lemma update_graph_inert:
  assumes np: "no_path gr a b" and inv: "inert gr a b P"
  shows "inert gr a b (the_planner (update_graph P changes))"
proof -
  have i1: "inert gr a b (the_planner (apply_changes P changes))"
    using np inv by (rule apply_changes_inert)
  show ?thesis
  proof (cases "apply_changes P changes")
    case (Ok P')
    then have "inert gr a b (reprime P')" using i1 reprime_inert by simp
    then show ?thesis using Ok by (simp add: update_graph_def)
  next
    case (Raise e P')
    then show ?thesis using i1 by (simp add: update_graph_def)
  qed
qed

lemma init_planner_inert:
  assumes np: "no_path gr a b"
  shows "inert gr a b (init_planner a b gr h eps)"
proof (rule inertI)
  let ?P = "init_planner a b gr h eps"
  show "shape (G ?P) = shape gr" by (simp add: init_planner_def Let_def)
  show "weighted (G ?P)" using np by (simp add: init_planner_def Let_def no_path_def)
  show "s_start ?P = a" by (simp add: init_planner_def Let_def)
  show "s_goal ?P = b" by (simp add: init_planner_def Let_def)
  show "queues_inv ?P" by (rule init_planner_queues_inv)
  show "s \<in> goal_side gr b" if "dict_mem (OPEN ?P) s" for s
  proof -
    have "s = b" using that by (simp add: init_planner_def Let_def dict_mem_def)
    then show ?thesis by (simp add: goal_side_goal)
  qed
  show "s \<in> goal_side gr b" if "dict_mem (INCONS ?P) s" for s
    using that by (simp add: init_planner_def Let_def dict_mem_def)
  show "g ?P s = PInf" if "s \<notin> goal_side gr b" for s
    by (simp add: init_planner_def Let_def)
  show "rhs ?P s = PInf" if "s \<notin> goal_side gr b" for s
  proof -
    have "s \<noteq> b" using that goal_side_goal [of b gr] by auto
    then show ?thesis by (simp add: init_planner_def Let_def)
  qed
qed

text \<open>
  \<open>built_on gr a b P\<close>: \<open>P\<close> is a planner for the start \<open>a\<close> and the goal \<open>b\<close> on the
  graph \<open>gr\<close>: the tables of lines 116 to 136, then any calls of
  \<open>compute_or_improve_path\<close>, of which the constructor makes the first, and of
  \<open>update_graph\<close>.
\<close>

inductive built_on :: "'n graph \<Rightarrow> 'n \<Rightarrow> 'n \<Rightarrow> 'n planner \<Rightarrow> bool" for gr a b where
  tables: "built_on gr a b (init_planner a b gr h eps)"
| improved: "built_on gr a b P \<Longrightarrow> compute_or_improve_path fuel eps P = Some r
              \<Longrightarrow> built_on gr a b (the_planner r)"
| updated: "built_on gr a b P \<Longrightarrow> built_on gr a b (the_planner (update_graph P changes))"

lemma built_on_inert:
  assumes np: "no_path gr a b" and "built_on gr a b P"
  shows "inert gr a b P"
  using assms(2)
proof (induction rule: built_on.induct)
  case (tables h eps)
  show ?case using np by (rule init_planner_inert)
next
  case (improved P fuel eps r)
  then obtain P' where "r = Ok P'" and "inert gr a b P'"
    using compute_or_improve_path_inert [OF np improved.IH, of eps] by blast
  then show ?case by simp
next
  case (updated P changes)
  show ?case using np updated.IH by (rule update_graph_inert)
qed

end
